theory Spec2Isabelle
  imports Complex_Main
begin

section \<open>Data model\<close>

text \<open>
  A document node as the transformer reads it: \<open>node.content\<close>, \<open>node.source\<close>,
  \<open>node.internal.origin\<close>, \<open>node.internal.timestamp\<close> and \<open>node.fileInfo.path\<close>.
\<close>

record node =
  content :: string
  source :: string
  origin :: string
  timestamp :: int
  path :: string

text \<open>The object literal that \<open>cacheKey\<close> hands to the hash (src/lib/utils.js).\<close>

record hashed =
  hashed_content :: string
  hashed_path :: string
  hashed_timestamp :: int
  hashed_key :: string

text \<open>\<open>this.options\<close> of a transformer instance: read by the collaborators only.\<close>

type_synonym options = "(string \<times> string) list"

text \<open>An entry of \<open>ast.getRefs()\<close> with the three properties the resolver copies.\<close>

record ref =
  level :: int
  title :: string
  ref_id :: string

record heading =
  depth :: int
  heading_value :: string
  anchor :: string

datatype err = TypeError | Failure string

text \<open>
  JavaScript numbers as far as \<open>Math.round(count / speed) || 1\<close> produces them: the
  quotient of a word count and a 32-bit integer is a rational, \<open>Infinity\<close> or \<open>NaN\<close>.
  A word count is far below \<open>2 ^ 51\<close>, where the double nearest to \<open>count / speed\<close>
  rounds to the same integer as the exact quotient does, so rationals are exact here.
\<close>

datatype jsnum = Num rat | Infinity | NaN

datatype 'd val =
    VUndef
  | VDoc 'd
  | VProm nat
  | VArr "heading list"
  | VNum jsnum
  | VStr string

text \<open>What \<open>if (!cached)\<close> and \<open>||\<close> test: the value is not falsy.\<close>

fun num_truthy :: "jsnum \<Rightarrow> bool" where
  "num_truthy (Num q) = (q \<noteq> 0)"
| "num_truthy Infinity = True"
| "num_truthy NaN = False"

fun truthy :: "'d val \<Rightarrow> bool" where
  "truthy VUndef = False"
| "truthy (VDoc d) = True"
| "truthy (VProm p) = True"
| "truthy (VArr hs) = True"
| "truthy (VNum x) = num_truthy x"
| "truthy (VStr s) = (s \<noteq> [])"

text \<open>
  The collaborators the module requires and does not define: \<open>hash-sum\<close>,
  \<open>asciidoctor.load\<close>, \<open>ast.convert\<close>, \<open>ast.getRefs\<close>, \<open>sanitize-html\<close> (called with
  no allowed tag and no allowed attribute), lodash \<open>words\<close> and \<open>path.dirname\<close>.
  The parser and the converter either return or throw.
\<close>

record ('f, 'd) ext =
  hash :: "hashed \<Rightarrow> 'f"
  load :: "string \<Rightarrow> options \<Rightarrow> string \<Rightarrow> err + 'd"
  convert :: "'d \<Rightarrow> options \<Rightarrow> string \<Rightarrow> err + string"
  getRefs :: "'d \<Rightarrow> ref list"
  sanitizeHTML :: "'d val \<Rightarrow> err + string"
  words :: "string \<Rightarrow> string list"
  dirname :: "string \<Rightarrow> string"

section \<open>Fingerprint (src/lib/utils.js)\<close>

definition cacheKey :: "('f, 'd) ext \<Rightarrow> node \<Rightarrow> string \<Rightarrow> 'f" where
  "cacheKey E n k =
     hash E \<lparr>hashed_content = content n, hashed_path = origin n,
              hashed_timestamp = timestamp n, hashed_key = k\<rparr>"

section \<open>Bounded memo store\<close>

text \<open>
  Modelled from the spec: the bounded memo store of sections 3 and 4.2. The module
  builds it with \<open>new LRU({ max: 1000 })\<close> from the \<open>lru-cache\<close> package, whose code is
  not among the sources. Entries are kept most recently used first; a lookup of a present
  key and every insertion move the key to the front; an insertion beyond the capacity
  drops entries from the least recently used end. A lookup of an absent key gives
  \<open>undefined\<close>.
\<close>

type_synonym ('f, 'd) lru = "('f \<times> 'd val) list"

definition lru_get :: "'f \<Rightarrow> ('f, 'd) lru \<Rightarrow> 'd val \<times> ('f, 'd) lru" where
  "lru_get k xs =
     (case map_of xs k of
        None \<Rightarrow> (VUndef, xs)
      | Some v \<Rightarrow> (v, (k, v) # filter (\<lambda>e. fst e \<noteq> k) xs))"

definition lru_set :: "nat \<Rightarrow> 'f \<Rightarrow> 'd val \<Rightarrow> ('f, 'd) lru \<Rightarrow> ('f, 'd) lru" where
  "lru_set cap k v xs = take cap ((k, v) # filter (\<lambda>e. fst e \<noteq> k) xs)"

definition max_entries :: nat where
  "max_entries = 1000"

text \<open>Inserting the keys \<open>ks\<close> in order, each with the value \<open>f\<close> gives it.\<close>

definition fill :: "('f \<Rightarrow> 'd val) \<Rightarrow> 'f list \<Rightarrow> ('f, 'd) lru \<Rightarrow> ('f, 'd) lru" where
  "fill f ks xs = fold (\<lambda>k. lru_set max_entries k (f k)) ks xs"

definition keys :: "('f, 'd) lru \<Rightarrow> 'f list" where
  "keys xs = map fst xs"

section \<open>Promises and the microtask queue\<close>

text \<open>
  The part of an async function after its \<open>await\<close>: the closure of the async arrow in
  \<open>_nodeToHTML\<close>, of the \<open>headings\<close> resolver and of the \<open>timeToRead\<close> resolver, each with
  the promise of its async function and the variables it captured; \<open>KAdopt p\<close> settles
  \<open>p\<close> the way the promise it was resolved with settles.
\<close>

datatype 'f cont =
    KHtml nat node options
  | KHeadings nat 'f
  | KTime nat 'f int
  | KAdopt nat

datatype ('f, 'd) task =
    Resume "'f cont" "err + 'd val"
  | ThenJob nat nat

datatype ('f, 'd) pstate =
    Pending "'f cont list"
  | Fulfilled "'d val"
  | Rejected err

datatype event = Load string | Convert | HeadingsComputed | TimeComputed

text \<open>
  The state of the module: the module-level \<open>cache\<close>, the promises allocated so far
  (a promise is its index), the microtask queue, and the calls made to the parser and
  the converter and the views computed, in order.
\<close>

record ('f, 'd) state =
  store :: "('f, 'd) lru"
  heap :: "('f, 'd) pstate list"
  queue :: "('f, 'd) task list"
  events :: "event list"

definition init :: "('f, 'd) state" where
  "init = \<lparr>store = [], heap = [], queue = [], events = []\<rparr>"

definition cache_get :: "'f \<Rightarrow> ('f, 'd) state \<Rightarrow> 'd val \<times> ('f, 'd) state" where
  "cache_get k s = (let (v, xs) = lru_get k (store s) in (v, s\<lparr>store := xs\<rparr>))"

definition cache_set :: "'f \<Rightarrow> 'd val \<Rightarrow> ('f, 'd) state \<Rightarrow> ('f, 'd) state" where
  "cache_set k v s = s\<lparr>store := lru_set max_entries k v (store s)\<rparr>"

text \<open>What \<open>cache.get(k)\<close> would return, without the change of recency.\<close>

definition cached_at :: "'f \<Rightarrow> ('f, 'd) state \<Rightarrow> 'd val" where
  "cached_at k s = fst (lru_get k (store s))"

definition emit :: "event \<Rightarrow> ('f, 'd) state \<Rightarrow> ('f, 'd) state" where
  "emit e s = s\<lparr>events := events s @ [e]\<rparr>"

definition enqueue :: "('f, 'd) task \<Rightarrow> ('f, 'd) state \<Rightarrow> ('f, 'd) state" where
  "enqueue t s = s\<lparr>queue := queue s @ [t]\<rparr>"

definition new_promise :: "('f, 'd) state \<Rightarrow> nat \<times> ('f, 'd) state" where
  "new_promise s = (length (heap s), s\<lparr>heap := heap s @ [Pending []]\<rparr>)"

definition promise_at :: "('f, 'd) state \<Rightarrow> nat \<Rightarrow> ('f, 'd) pstate option" where
  "promise_at s p = (if p < length (heap s) then Some (heap s ! p) else None)"

text \<open>Settling a pending promise queues its reactions; a settled one stays as it is.\<close>

definition settle :: "nat \<Rightarrow> err + 'd val \<Rightarrow> ('f, 'd) state \<Rightarrow> ('f, 'd) state" where
  "settle p r s =
     (case promise_at s p of
        Some (Pending ks) \<Rightarrow>
          s\<lparr>heap := (heap s)[p := (case r of Inl e \<Rightarrow> Rejected e | Inr v \<Rightarrow> Fulfilled v)],
            queue := queue s @ map (\<lambda>k. Resume k r) ks\<rparr>
      | _ \<Rightarrow> s)"

definition reject :: "nat \<Rightarrow> err \<Rightarrow> ('f, 'd) state \<Rightarrow> ('f, 'd) state" where
  "reject p e s = settle p (Inl e) s"

text \<open>
  Resolving with a promise queues the job that will subscribe to it; resolving with any
  other value fulfils.
\<close>

definition resolve :: "nat \<Rightarrow> 'd val \<Rightarrow> ('f, 'd) state \<Rightarrow> ('f, 'd) state" where
  "resolve p v s =
     (case v of
        VProm q \<Rightarrow> if q = p then settle p (Inl TypeError) s else enqueue (ThenJob p q) s
      | _ \<Rightarrow> settle p (Inr v) s)"

definition subscribe :: "nat \<Rightarrow> 'f cont \<Rightarrow> ('f, 'd) state \<Rightarrow> ('f, 'd) state" where
  "subscribe q k s =
     (case promise_at s q of
        Some (Pending ks) \<Rightarrow> s\<lparr>heap := (heap s)[q := Pending (ks @ [k])]\<rparr>
      | Some (Fulfilled v) \<Rightarrow> enqueue (Resume k (Inr v)) s
      | Some (Rejected e) \<Rightarrow> enqueue (Resume k (Inl e)) s
      | None \<Rightarrow> s)"

text \<open>\<open>await v\<close>: the rest of the async function runs in a later microtask.\<close>

definition await :: "'d val \<Rightarrow> 'f cont \<Rightarrow> ('f, 'd) state \<Rightarrow> ('f, 'd) state" where
  "await v k s =
     (case v of
        VProm q \<Rightarrow> subscribe q k s
      | _ \<Rightarrow> enqueue (Resume k (Inr v)) s)"

text \<open>\<open>Promise.resolve(v)\<close>: a promise is returned as it is, another value is wrapped.\<close>

definition promise_resolve :: "'d val \<Rightarrow> ('f, 'd) state \<Rightarrow> nat \<times> ('f, 'd) state" where
  "promise_resolve v s =
     (case v of
        VProm q \<Rightarrow> (q, s)
      | _ \<Rightarrow> (length (heap s), s\<lparr>heap := heap s @ [Fulfilled v]\<rparr>))"

section \<open>The memoized stages (src/index.js)\<close>

text \<open>
  \<open>_nodeToAST\<close>: the synchronous parser either throws (\<open>Inl\<close>, before \<open>cache.set\<close> is
  reached) or its document is stored; the result is \<open>Promise.resolve(cached)\<close>.
\<close>

definition nodeToAST ::
  "('f, 'd) ext \<Rightarrow> options \<Rightarrow> node \<Rightarrow> ('f, 'd) state \<Rightarrow> (err + nat) \<times> ('f, 'd) state" where
  "nodeToAST E opts n s =
     (let key = cacheKey E n ''ast'';
          (cached, s1) = cache_get key s
      in if \<not> truthy cached then
           (case load E (source n) opts (dirname E (path n)) of
              Inl e \<Rightarrow> (Inl e, emit (Load (source n)) s1)
            | Inr d \<Rightarrow>
                (let (p, s2) = promise_resolve (VDoc d)
                                 (cache_set key (VDoc d) (emit (Load (source n)) s1))
                 in (Inr p, s2)))
         else (let (p, s2) = promise_resolve cached s1 in (Inr p, s2)))"

text \<open>
  \<open>_nodeToHTML\<close>: on a miss the async arrow function is called at once; it runs up to
  its \<open>await\<close> (a throw of \<open>_nodeToAST\<close> rejects its promise), then the promise is
  stored and returned.
\<close>

definition nodeToHTML ::
  "('f, 'd) ext \<Rightarrow> options \<Rightarrow> node \<Rightarrow> ('f, 'd) state \<Rightarrow> nat \<times> ('f, 'd) state" where
  "nodeToHTML E opts n s =
     (let key = cacheKey E n ''html'';
          (cached, s1) = cache_get key s
      in if \<not> truthy cached then
           (let (p, s2) = new_promise s1;
                s3 = (case nodeToAST E opts n s2 of
                        (Inl e, s') \<Rightarrow> reject p e s'
                      | (Inr q, s') \<Rightarrow> await (VProm q) (KHtml p n opts) s')
            in promise_resolve (VProm p) (cache_set key (VProm p) s3))
         else promise_resolve cached s1)"

text \<open>
  The \<open>headings\<close> resolver up to its \<open>await\<close>. Its arguments \<open>depth\<close> and \<open>stripTags\<close>
  are destructured and not used again.
\<close>

definition headings_resolve ::
  "('f, 'd) ext \<Rightarrow> options \<Rightarrow> node \<Rightarrow> int option \<Rightarrow> bool \<Rightarrow> ('f, 'd) state
     \<Rightarrow> nat \<times> ('f, 'd) state" where
  "headings_resolve E opts n depth_arg stripTags s =
     (let (p, s0) = new_promise s;
          key = cacheKey E n ''headings'';
          (hs, s1) = cache_get key s0
      in if \<not> truthy hs then
           (case nodeToAST E opts n s1 of
              (Inl e, s') \<Rightarrow> (p, reject p e s')
            | (Inr q, s') \<Rightarrow> (p, await (VProm q) (KHeadings p key) s'))
         else (p, resolve p hs s1))"

text \<open>The \<open>timeToRead\<close> resolver up to its \<open>await\<close>.\<close>

definition timeToRead_resolve ::
  "('f, 'd) ext \<Rightarrow> options \<Rightarrow> node \<Rightarrow> int \<Rightarrow> ('f, 'd) state \<Rightarrow> nat \<times> ('f, 'd) state" where
  "timeToRead_resolve E opts n speed s =
     (let (p, s0) = new_promise s;
          key = cacheKey E n ''timeToRead'';
          (cached, s1) = cache_get key s0
      in if \<not> truthy cached then
           (let (q, s2) = nodeToHTML E opts n s1
            in (p, await (VProm q) (KTime p key speed) s2))
         else (p, resolve p cached s1))"

text \<open>The defaults of the GraphQL arguments: \<open>stripTags\<close> is true, \<open>speed\<close> is 230.\<close>

definition headings_field ::
  "('f, 'd) ext \<Rightarrow> options \<Rightarrow> node \<Rightarrow> int option \<Rightarrow> bool option \<Rightarrow> ('f, 'd) state
     \<Rightarrow> nat \<times> ('f, 'd) state" where
  "headings_field E opts n depth_arg stripTags s =
     headings_resolve E opts n depth_arg (case stripTags of None \<Rightarrow> True | Some b \<Rightarrow> b) s"

definition timeToRead_field ::
  "('f, 'd) ext \<Rightarrow> options \<Rightarrow> node \<Rightarrow> int option \<Rightarrow> ('f, 'd) state \<Rightarrow> nat \<times> ('f, 'd) state" where
  "timeToRead_field E opts n speed s =
     timeToRead_resolve E opts n (case speed of None \<Rightarrow> 230 | Some v \<Rightarrow> v) s"

subsection \<open>After the await\<close>

definition js_div :: "nat \<Rightarrow> int \<Rightarrow> jsnum" where
  "js_div count speed =
     (if speed = 0 then (if count = 0 then NaN else Infinity)
      else Num (of_nat count / of_int speed))"

fun Math_round :: "jsnum \<Rightarrow> jsnum" where
  "Math_round (Num q) = Num (of_int (round q))"
| "Math_round Infinity = Infinity"
| "Math_round NaN = NaN"

text \<open>\<open>Math.round(count / speed) || 1\<close>\<close>

definition reading_time :: "nat \<Rightarrow> int \<Rightarrow> jsnum" where
  "reading_time count speed =
     (let r = Math_round (js_div count speed)
      in if num_truthy r then r else Num 1)"

definition to_heading :: "ref \<Rightarrow> heading" where
  "to_heading h = \<lparr>depth = level h, heading_value = title h, anchor = ref_id h\<rparr>"

text \<open>
  Resuming a continuation with what its \<open>await\<close> produced: a rejection is thrown inside
  the async function and rejects its promise; \<open>ast.convert\<close> and \<open>ast.getRefs\<close> exist on a
  document only, on any other value the call is a TypeError.
\<close>

fun resume :: "('f, 'd) ext \<Rightarrow> 'f cont \<Rightarrow> err + 'd val \<Rightarrow> ('f, 'd) state \<Rightarrow> ('f, 'd) state" where
  "resume E (KHtml p n opts) (Inl e) s = reject p e s"
| "resume E (KHtml p n opts) (Inr (VDoc d)) s =
     (case convert E d opts (dirname E (path n)) of
        Inl e \<Rightarrow> reject p e (emit Convert s)
      | Inr html \<Rightarrow> resolve p (VStr html) (emit Convert s))"
| "resume E (KHtml p n opts) (Inr _) s = reject p TypeError s"
| "resume E (KHeadings p key) (Inl e) s = reject p e s"
| "resume E (KHeadings p key) (Inr (VDoc d)) s =
     (let hs = map to_heading (getRefs E d)
      in resolve p (VArr hs) (cache_set key (VArr hs) (emit HeadingsComputed s)))"
| "resume E (KHeadings p key) (Inr _) s = reject p TypeError s"
| "resume E (KTime p key speed) (Inl e) s = reject p e s"
| "resume E (KTime p key speed) (Inr html) s =
     (case sanitizeHTML E html of
        Inl e \<Rightarrow> reject p e s
      | Inr text \<Rightarrow>
          (let cached = reading_time (length (words E text)) speed
           in resolve p (VNum cached) (cache_set key (VNum cached) (emit TimeComputed s))))"
| "resume E (KAdopt p) r s = settle p r s"

fun run_task :: "('f, 'd) ext \<Rightarrow> ('f, 'd) task \<Rightarrow> ('f, 'd) state \<Rightarrow> ('f, 'd) state" where
  "run_task E (Resume k r) s = resume E k r s"
| "run_task E (ThenJob p q) s = subscribe q (KAdopt p) s"

text \<open>One microtask: the first job of the queue runs to its end.\<close>

definition step :: "('f, 'd) ext \<Rightarrow> ('f, 'd) state \<Rightarrow> ('f, 'd) state" where
  "step E s =
     (case queue s of
        [] \<Rightarrow> s
      | t # ts \<Rightarrow> run_task E t (s\<lparr>queue := ts\<rparr>))"

text \<open>
  Draining the microtask queue. No continuation awaits again, so every job either leaves
  the queue or moves from a pending promise into it: the number of queued and registered
  jobs (a \<open>ThenJob\<close> counted twice, for the reaction it registers) decreases.
\<close>

fun task_weight :: "('f, 'd) task \<Rightarrow> nat" where
  "task_weight (Resume k r) = 1"
| "task_weight (ThenJob p q) = 2"

fun reactions :: "('f, 'd) pstate \<Rightarrow> nat" where
  "reactions (Pending ks) = length ks"
| "reactions (Fulfilled v) = 0"
| "reactions (Rejected e) = 0"

definition weight :: "('f, 'd) state \<Rightarrow> nat" where
  "weight s = sum_list (map task_weight (queue s)) + sum_list (map reactions (heap s))"

lemma sum_reactions_update:
  "p < length h \<Longrightarrow> sum_list (map reactions (h[p := x])) + reactions (h ! p) = sum_list (map reactions h) + reactions x"
  by (induction h arbitrary: p) (auto split: nat.splits)

lemma weight_settle [simp]: "weight (settle p r s) = weight s"
  using sum_reactions_update[of p "heap s" "case r of Inl e \<Rightarrow> Rejected e | Inr v \<Rightarrow> Fulfilled v"]
  by (auto simp: settle_def promise_at_def weight_def comp_def sum_list_triv split: option.splits pstate.splits sum.splits)

lemma weight_cache_set [simp]: "weight (cache_set k v s) = weight s"
  by (simp add: cache_set_def weight_def)

lemma weight_emit [simp]: "weight (emit e s) = weight s"
  by (simp add: emit_def weight_def)

lemma weight_subscribe: "weight (subscribe q k s) \<le> weight s + 1"
proof (cases "promise_at s q")
  case None
  then show ?thesis by (simp add: subscribe_def)
next
  case (Some ps)
  then have q: "q < length (heap s)" "heap s ! q = ps"
    by (auto simp: promise_at_def split: if_splits)
  show ?thesis
  proof (cases ps)
    case (Pending ks)
    with q sum_reactions_update[of q "heap s" "Pending (ks @ [k])"] Some show ?thesis
      by (simp add: subscribe_def weight_def)
  qed (use Some in \<open>simp_all add: subscribe_def weight_def enqueue_def\<close>)
qed

lemma weight_resume: "weight (resume E k r s) = weight s"
  by (induction E k r s rule: resume.induct)
     (auto simp: reject_def resolve_def Let_def split: sum.splits)

lemma weight_step: "queue s \<noteq> [] \<Longrightarrow> weight (step E s) < weight s"
proof -
  assume "queue s \<noteq> []"
  then obtain t ts where q: "queue s = t # ts" by (cases "queue s") auto
  let ?s = "s\<lparr>queue := ts\<rparr>"
  have w: "weight s = task_weight t + weight ?s"
    using q by (simp add: weight_def)
  show ?thesis
  proof (cases t)
    case (Resume k r)
    with q w show ?thesis by (simp add: step_def weight_resume)
  next
    case (ThenJob p q')
    with q w weight_subscribe[of q' "KAdopt p" ?s] show ?thesis by (simp add: step_def)
  qed
qed

function run :: "('f, 'd) ext \<Rightarrow> ('f, 'd) state \<Rightarrow> ('f, 'd) state" where
  "run E s = (if queue s = [] then s else run E (step E s))"
  by pat_completeness auto
termination
  by (relation "measure (\<lambda>(E, s). weight s)") (auto simp: weight_step)

lemma run_done: "queue s = [] \<Longrightarrow> run E s = s"
  by simp

lemma run_step: "queue s \<noteq> [] \<Longrightarrow> run E s = run E (step E s)"
  by simp

declare run.simps [simp del]

text \<open>The invariant of the store: no stored value is falsy.\<close>

definition store_truthy :: "('f, 'd) state \<Rightarrow> bool" where
  "store_truthy s = list_all (\<lambda>e. truthy (snd e)) (store s)"

text \<open>An integer that is at least 1.\<close>

definition at_least_one :: "jsnum \<Rightarrow> bool" where
  "at_least_one x = (case x of Num q \<Rightarrow> 1 \<le> q \<and> q = of_int \<lfloor>q\<rfloor> | _ \<Rightarrow> False)"

section \<open>Collaborators for concrete runs\<close>

text \<open>
  Stand-ins for the collaborators, to run the module on concrete nodes: the fingerprint is
  the hashed object itself (no collision), the parser rejects the source \<open>bad\<close> and
  otherwise returns the source as the document, the document \<open>two\<close> has two sections,
  the converter wraps the document in a paragraph, the sanitizer drops what stands between
  angle brackets, and words are separated by spaces.
\<close>

fun strip_tags :: "bool \<Rightarrow> string \<Rightarrow> string" where
  "strip_tags inside [] = []"
| "strip_tags inside (c # cs) =
     (if c = CHR ''<'' then strip_tags True cs
      else if c = CHR ''>'' then strip_tags False cs
      else if inside then strip_tags inside cs
      else c # strip_tags inside cs)"

fun split_words :: "string \<Rightarrow> string \<Rightarrow> string list" where
  "split_words w [] = (if w = [] then [] else [w])"
| "split_words w (c # cs) =
     (if c = CHR '' '' then (if w = [] then split_words [] cs else w # split_words [] cs)
      else split_words (w @ [c]) cs)"

definition ex_ext :: "(hashed, string) ext" where
  "ex_ext =
     \<lparr>hash = (\<lambda>h. h),
      load = (\<lambda>src opts base. if src = ''bad'' then Inl (Failure ''parse'') else Inr src),
      convert = (\<lambda>d opts base. Inr (''<p>'' @ d @ ''</p>'')),
      getRefs = (\<lambda>d. if d = ''two'' then
                   [\<lparr>level = 1, title = ''<b>A</b>'', ref_id = ''_a''\<rparr>,
                    \<lparr>level = 2, title = ''B'', ref_id = ''_b''\<rparr>]
                 else []),
      sanitizeHTML = (\<lambda>v. case v of VStr s \<Rightarrow> Inr (strip_tags False s) | _ \<Rightarrow> Inl TypeError),
      words = split_words [],
      dirname = (\<lambda>p. ''/'')\<rparr>"

definition ex_node :: "string \<Rightarrow> node" where
  "ex_node src = \<lparr>content = ''c'', source = src, origin = ''/a.adoc'', timestamp = 1, path = ''/a.adoc''\<rparr>"

section \<open>The fingerprint function of the deployed module (hash-sum)\<close>

text \<open>
  \<open>src/lib/utils.js\<close> takes its \<open>hash\<close> from the npm package \<open>hash-sum\<close>, which is a
  dependency and not a source file of this repository. The definitions of this section
  follow the \<open>sum\<close> function of that package, as published, on the object that
  \<open>cacheKey\<close> builds: \<open>fold\<close> runs \<open>hash = ((hash << 5) - hash) + chr; hash |= 0\<close> over the
  characters of a text and returns \<open>hash * -2\<close> for a negative result; \<open>foldValue\<close> folds
  the key of a value, its \<open>Object.prototype.toString\<close> tag, its \<open>typeof\<close> and then, for a
  string or a number, its \<open>toString()\<close>, and for an object its fields in the order of the
  sorted keys (here \<open>content\<close>, \<open>key\<close>, \<open>path\<close>, \<open>timestamp\<close>); \<open>sum\<close> prints the result
  in base 16, padded with zeros to eight digits. Characters are their codes below 256
  and the timestamp is an integer number (below \<open>10^21\<close>, which JavaScript prints in
  plain decimal).
\<close>

definition to_int32 :: "int \<Rightarrow> int" where
  "to_int32 x = (let y = x mod 2 ^ 32 in if 2 ^ 31 \<le> y then y - 2 ^ 32 else y)"

fun fold_chars :: "int \<Rightarrow> string \<Rightarrow> int" where
  "fold_chars h [] = h"
| "fold_chars h (c # cs) =
     fold_chars (to_int32 (to_int32 (to_int32 h * 32) - h + of_char c)) cs"

definition fold_text :: "int \<Rightarrow> string \<Rightarrow> int" where
  "fold_text h text =
     (if text = [] then h
      else let h' = fold_chars h text in if h' < 0 then h' * - 2 else h')"

definition digit_char :: "int \<Rightarrow> char" where
  "digit_char d = (''0123456789abcdef'') ! nat d"

function radix_digits :: "int \<Rightarrow> int \<Rightarrow> string" where
  "radix_digits b n =
     (if n < b \<or> b < 2 then [digit_char n]
      else radix_digits b (n div b) @ [digit_char (n mod b)])"
  by pat_completeness auto

termination
proof (relation "measure (\<lambda>(b, n). nat n)", goal_cases)
  case 1
  show ?case by simp
next
  case (2 b n)
  then have "n div b < n" by (intro int_div_less_self) auto
  with 2 show ?case by simp
qed

definition number_toString :: "int \<Rightarrow> int \<Rightarrow> string" where
  "number_toString b i =
     (if i < 0 then CHR ''-'' # radix_digits b (- i) else radix_digits b i)"

definition pad :: "string \<Rightarrow> nat \<Rightarrow> string" where
  "pad h len = replicate (len - length h) CHR ''0'' @ h"

definition foldValue_string :: "int \<Rightarrow> string \<Rightarrow> string \<Rightarrow> int" where
  "foldValue_string input v key =
     fold_text (fold_text (fold_text (fold_text input key) ''[object String]'') ''string'') v"

definition foldValue_number :: "int \<Rightarrow> int \<Rightarrow> string \<Rightarrow> int" where
  "foldValue_number input v key =
     fold_text (fold_text (fold_text (fold_text input key) ''[object Number]'') ''number'')
       (number_toString 10 v)"

definition foldValue_object :: "int \<Rightarrow> hashed \<Rightarrow> string \<Rightarrow> int" where
  "foldValue_object input x key =
     (let h0 = fold_text (fold_text (fold_text input key) ''[object Object]'') ''object'';
          h1 = foldValue_string h0 (hashed_content x) ''content'';
          h2 = foldValue_string h1 (hashed_key x) ''key'';
          h3 = foldValue_string h2 (hashed_path x) ''path''
      in foldValue_number h3 (hashed_timestamp x) ''timestamp'')"

definition hash_sum :: "hashed \<Rightarrow> string" where
  "hash_sum x = pad (number_toString 16 (foldValue_object 0 x [])) 8"

text \<open>The stand-in collaborators with the fingerprint of \<open>hash-sum\<close>, and a node created
  at a given time.\<close>

definition hs_ext :: "(string, string) ext" where
  "hs_ext =
     \<lparr>hash = hash_sum, load = load ex_ext, convert = convert ex_ext, getRefs = getRefs ex_ext,
      sanitizeHTML = sanitizeHTML ex_ext, words = words ex_ext, dirname = dirname ex_ext\<rparr>"

definition node_at :: "int \<Rightarrow> node" where
  "node_at ts = \<lparr>content = ''c'', source = ''x'', origin = ''/a.adoc'', timestamp = ts,
                 path = ''/a.adoc''\<rparr>"

section \<open>The memo store evicts the least recently used entry\<close>

lemma length_lru_set: "length (lru_set cap k v xs) \<le> cap"
  by (simp add: lru_set_def)

lemma fill_snoc: "fill f (ks @ [k]) xs = lru_set max_entries k (f k) (fill f ks xs)"
  by (simp add: fill_def)

lemma fill_distinct:
  "distinct ks \<Longrightarrow> length ks \<le> max_entries \<Longrightarrow> fill f ks [] = map (\<lambda>k. (k, f k)) (rev ks)"
proof (induction ks rule: rev_induct)
  case Nil
  then show ?case by (simp add: fill_def)
next
  case (snoc k ks)
  then have eq: "fill f ks [] = map (\<lambda>k. (k, f k)) (rev ks)" and notin: "k \<notin> set ks"
    and len: "Suc (length ks) \<le> max_entries"
    by simp_all
  have "filter (\<lambda>e. fst e \<noteq> k) (map (\<lambda>k. (k, f k)) (rev ks)) = map (\<lambda>k. (k, f k)) (rev ks)"
    using notin by (auto simp: filter_id_conv)
  then show ?case
    using len by (simp add: fill_snoc eq lru_set_def)
qed

lemma take_length_Cons: "length xs = cap \<Longrightarrow> 0 < cap \<Longrightarrow> take cap (x # xs) = x # butlast xs"
  by (cases cap) (simp_all add: butlast_conv_take)

lemma lru_get_present:
  "distinct ks \<Longrightarrow> x \<in> set ks \<Longrightarrow>
   lru_get x (map (\<lambda>k. (k, f k)) ks) = (f x, (x, f x) # map (\<lambda>k. (k, f k)) (filter (\<lambda>y. y \<noteq> x) ks))"
proof -
  assume "distinct ks" "x \<in> set ks"
  have "map_of (map (\<lambda>k. (k, f k)) ks) x = Some (f x)"
    using \<open>x \<in> set ks\<close> by (induction ks) auto
  then show ?thesis by (simp add: lru_get_def filter_map comp_def)
qed

lemma length_filter_neq:
  "distinct ks \<Longrightarrow> x \<in> set ks \<Longrightarrow> Suc (length (filter (\<lambda>y. y \<noteq> x) ks)) = length ks"
proof (induction ks)
  case Nil
  then show ?case by simp
next
  case (Cons a ks)
  show ?case
  proof (cases "a = x")
    case True
    with Cons.prems have "x \<notin> set ks" by simp
    then have "filter (\<lambda>y. y \<noteq> x) ks = ks" by (auto simp: filter_id_conv)
    with True show ?thesis by simp
  next
    case False
    with Cons show ?thesis by simp
  qed
qed

lemma length_lru_get: "length (snd (lru_get x xs)) \<le> length xs"
proof (cases "map_of xs x")
  case None
  then show ?thesis by (simp add: lru_get_def)
next
  case (Some v)
  then have "(x, v) \<in> set xs" by (rule map_of_SomeD)
  then have "length (filter (\<lambda>e. fst e \<noteq> x) xs) < length xs"
    by (intro length_filter_less[of "(x, v)"]) auto
  with Some show ?thesis by (simp add: lru_get_def)
qed

text \<open>
  C8: no insertion leaves more than 1000 entries and no lookup adds one. After
  \<open>max_entries\<close> distinct keys \<open>ks\<close> were inserted into the empty store, inserting one more
  key \<open>k\<close> drops exactly the first inserted key \<open>hd ks\<close>, the least recently used one;
  when a key \<open>x\<close> of the store is looked up, or set again, before that insertion, \<open>x\<close>
  moves to the front and stays, and the entry dropped is the least recently used of the
  others.
\<close>

theorem lru_eviction:
  assumes "distinct ks" and "length ks = max_entries" and "k \<notin> set ks" and "x \<in> set ks"
  shows "length (lru_set max_entries k v xs) \<le> 1000
    \<and> length (snd (lru_get x xs)) \<le> length xs
    \<and> keys (fill f ks []) = rev ks
    \<and> keys (lru_set max_entries k v (fill f ks [])) = k # rev (tl ks)
    \<and> fst (lru_get x (fill f ks [])) = f x
    \<and> keys (lru_set max_entries k v (snd (lru_get x (fill f ks []))))
        = k # x # butlast (filter (\<lambda>y. y \<noteq> x) (rev ks))
    \<and> keys (lru_set max_entries k v (lru_set max_entries x w (fill f ks [])))
        = k # x # butlast (filter (\<lambda>y. y \<noteq> x) (rev ks))"
proof -
  have full: "fill f ks [] = map (\<lambda>k. (k, f k)) (rev ks)"
    using assms by (simp add: fill_distinct)
  have pos: "0 < max_entries" by (simp add: max_entries_def)
  have ne: "ks \<noteq> []" using assms pos by auto
  have a: "length (lru_set max_entries k v xs) \<le> 1000"
    using length_lru_set[of max_entries k v xs] by (simp add: max_entries_def)
  have nofilter: "filter (\<lambda>e. fst e \<noteq> k) (map (\<lambda>k. (k, f k)) (rev ks)) = map (\<lambda>k. (k, f k)) (rev ks)"
    using assms(3) by (auto simp: filter_id_conv)
  have c: "keys (lru_set max_entries k v (fill f ks [])) = k # rev (tl ks)"
    using assms(2) pos ne
    by (simp add: full lru_set_def nofilter take_length_Cons keys_def map_butlast[symmetric] comp_def butlast_rev)
  have g: "lru_get x (fill f ks []) = (f x, (x, f x) # map (\<lambda>k. (k, f k)) (filter (\<lambda>y. y \<noteq> x) (rev ks)))"
    unfolding full using lru_get_present[of "rev ks" x f] assms by simp
  have lenf: "Suc (length (filter (\<lambda>y. y \<noteq> x) (rev ks))) = max_entries"
    using length_filter_neq[of "rev ks" x] assms by simp
  have rest: "filter (\<lambda>y. y \<noteq> x) (rev ks) \<noteq> []"
    using lenf by (auto simp: max_entries_def)
  have kx: "k \<noteq> x" using assms by auto
  have nofilter2: "filter (\<lambda>e. fst e \<noteq> k) (map (\<lambda>k. (k, f k)) (filter (\<lambda>y. y \<noteq> x) (rev ks)))
      = map (\<lambda>k. (k, f k)) (filter (\<lambda>y. y \<noteq> x) (rev ks))"
    using assms(3) by (auto simp: filter_id_conv)
  have e: "keys (lru_set max_entries k v (snd (lru_get x (fill f ks []))))
        = k # x # butlast (filter (\<lambda>y. y \<noteq> x) (rev ks))"
    using lenf kx rest
    by (simp add: g lru_set_def nofilter2 take_length_Cons keys_def comp_def map_butlast[symmetric] del: rev_filter)
  have s: "lru_set max_entries x w (fill f ks [])
      = (x, w) # map (\<lambda>k. (k, f k)) (filter (\<lambda>y. y \<noteq> x) (rev ks))"
    using lenf by (simp add: full lru_set_def filter_map comp_def del: rev_filter)
  have e': "keys (lru_set max_entries k v (lru_set max_entries x w (fill f ks [])))
        = k # x # butlast (filter (\<lambda>y. y \<noteq> x) (rev ks))"
    unfolding s using lenf kx rest
    by (simp add: lru_set_def nofilter2 take_length_Cons keys_def comp_def map_butlast[symmetric] del: rev_filter)
  have b: "keys (fill f ks []) = rev ks"
    by (simp add: full keys_def comp_def)
  have d: "fst (lru_get x (fill f ks [])) = f x"
    by (simp add: g)
  show ?thesis using a b c d e e' length_lru_get[of x xs] by blast
qed


theorem lru_eviction_witness:
  "distinct [0..<1000] \<and> length [0..<1000] = max_entries \<and> 1000 \<notin> set [0..<1000]
    \<and> 0 \<in> set [0..<1000]
    \<and> keys (lru_set max_entries 1000 (VUndef :: unit val) (fill (\<lambda>k. VUndef) [0..<1000] []))
        = 1000 # rev (tl [0..<1000])
    \<and> keys (lru_set max_entries 1000 (VUndef :: unit val)
              (snd (lru_get 0 (fill (\<lambda>k. VUndef) [0..<1000] []))))
        = 1000 # 0 # butlast (filter (\<lambda>y. y \<noteq> 0) (rev [0..<1000]))"
proof -
  have h1: "distinct [0..<1000]" by (rule distinct_upt)
  have h2: "length [0..<1000] = max_entries" by (simp only: length_upt max_entries_def diff_zero)
  have h3: "1000 \<notin> set [0..<1000]" by (simp only: set_upt atLeastLessThan_iff) simp
  have h4: "0 \<in> set [0..<1000]" by (simp only: set_upt atLeastLessThan_iff) simp
  from lru_eviction[OF h1 h2 h3 h4, of "VUndef :: unit val" "[]" "\<lambda>k. VUndef" VUndef] h1 h2 h3 h4
  show ?thesis by blast
qed

section \<open>Lookups and repeated calls\<close>

lemma map_of_filter_neq: "k' \<noteq> k \<Longrightarrow> map_of (filter (\<lambda>e. fst e \<noteq> k) xs) k' = map_of xs k'"
  by (induction xs) auto

lemma map_of_lru_get: "map_of (snd (lru_get k xs)) = map_of xs"
proof (cases "map_of xs k")
  case None
  then show ?thesis by (simp add: lru_get_def)
next
  case (Some v)
  have "map_of ((k, v) # filter (\<lambda>e. fst e \<noteq> k) xs) k' = map_of xs k'" for k'
    using Some by (cases "k' = k") (simp_all add: map_of_filter_neq)
  with Some show ?thesis by (auto simp: lru_get_def)
qed

lemma fst_lru_get: "fst (lru_get k xs) = (case map_of xs k of None \<Rightarrow> VUndef | Some v \<Rightarrow> v)"
  by (simp add: lru_get_def split: option.splits)

lemma fst_lru_get_touch: "fst (lru_get k (snd (lru_get k' xs))) = fst (lru_get k xs)"
  by (simp add: fst_lru_get map_of_lru_get)

lemma fst_lru_get_set: "fst (lru_get k (lru_set max_entries k v xs)) = v"
  by (simp add: fst_lru_get lru_set_def max_entries_def)

lemma cache_get_eq: "cache_get k s = (cached_at k s, s\<lparr>store := snd (lru_get k (store s))\<rparr>)"
  by (simp add: cache_get_def cached_at_def split: prod.splits)

lemma cached_at_simps [simp]:
  "cached_at k (s\<lparr>store := snd (lru_get k' (store s))\<rparr>) = cached_at k s"
  "cached_at k (cache_set k v s) = v"
  "cached_at k (s\<lparr>heap := h\<rparr>) = cached_at k s"
  "cached_at k (s\<lparr>queue := q\<rparr>) = cached_at k s"
  "cached_at k (s\<lparr>events := ev\<rparr>) = cached_at k s"
  by (simp_all add: cached_at_def fst_lru_get_touch fst_lru_get_set cache_set_def)

lemma cached_at_promise_resolve [simp]: "cached_at k (snd (promise_resolve v s)) = cached_at k s"
  by (cases v) (simp_all add: promise_resolve_def)

lemma nodeToHTML_hit:
  "truthy (cached_at (cacheKey E n ''html'') s) \<Longrightarrow>
   nodeToHTML E opts n s =
     promise_resolve (cached_at (cacheKey E n ''html'') s)
       (s\<lparr>store := snd (lru_get (cacheKey E n ''html'') (store s))\<rparr>)"
  by (simp add: nodeToHTML_def cache_get_eq Let_def)

lemma nodeToHTML_miss:
  "\<not> truthy (cached_at (cacheKey E n ''html'') s) \<Longrightarrow> nodeToHTML E opts n s = (p, s1) \<Longrightarrow>
   p = length (heap s) \<and> cached_at (cacheKey E n ''html'') s1 = VProm p"
  by (auto simp: nodeToHTML_def cache_get_eq new_promise_def promise_resolve_def Let_def split: prod.splits)

lemma promise_resolve_twice:
  "promise_resolve c s = (p1, s1) \<Longrightarrow> heap s1' = heap s1 \<Longrightarrow> promise_resolve c s1' = (p2, s2) \<Longrightarrow>
   promise_at s2 p2 = promise_at s1 p1 \<and> events s2 = events s1' \<and> queue s2 = queue s1' \<and> store s2 = store s1'"
  by (cases c) (auto simp: promise_resolve_def promise_at_def nth_append)

lemma nodeToHTML_again:
  assumes "nodeToHTML E opts n s = (p1, s1)"
    and "cacheKey E n' ''html'' = cacheKey E n ''html''"
    and "nodeToHTML E opts' n' s1 = (p2, s2)"
  shows "events s2 = events s1 \<and> queue s2 = queue s1 \<and> promise_at s2 p2 = promise_at s1 p1
     \<and> (\<not> truthy (cached_at (cacheKey E n ''html'') s) \<longrightarrow> p2 = p1)"
proof (cases "truthy (cached_at (cacheKey E n ''html'') s)")
  case True
  let ?k = "cacheKey E n ''html''"
  let ?c = "cached_at ?k s"
  from True assms(1) have 1: "promise_resolve ?c (s\<lparr>store := snd (lru_get ?k (store s))\<rparr>) = (p1, s1)"
    by (simp add: nodeToHTML_hit)
  then have c1: "cached_at ?k s1 = ?c"
    using cached_at_promise_resolve[of ?k ?c "s\<lparr>store := snd (lru_get ?k (store s))\<rparr>"] by simp
  with True assms(2,3) have 2: "promise_resolve ?c (s1\<lparr>store := snd (lru_get ?k (store s1))\<rparr>) = (p2, s2)"
    by (simp add: nodeToHTML_hit)
  from promise_resolve_twice[OF 1 _ 2] True show ?thesis by simp
next
  case False
  let ?k = "cacheKey E n ''html''"
  from nodeToHTML_miss[OF False assms(1)] have c1: "cached_at ?k s1 = VProm p1" by simp
  with assms(2,3) have "promise_resolve (VProm p1) (s1\<lparr>store := snd (lru_get ?k (store s1))\<rparr>) = (p2, s2)"
    by (simp add: nodeToHTML_hit)
  then show ?thesis by (auto simp: promise_resolve_def promise_at_def)
qed

lemma nodeToAST_hit:
  "truthy (cached_at (cacheKey E n ''ast'') s) \<Longrightarrow>
   nodeToAST E opts n s =
     (let (p, s2) = promise_resolve (cached_at (cacheKey E n ''ast'') s)
                      (s\<lparr>store := snd (lru_get (cacheKey E n ''ast'') (store s))\<rparr>)
      in (Inr p, s2))"
  by (simp add: nodeToAST_def cache_get_eq Let_def)

lemma nodeToAST_again:
  assumes "nodeToAST E opts n s = (Inr p1, s1)"
    and "cacheKey E n' ''ast'' = cacheKey E n ''ast''"
  shows "\<exists>p2 s2. nodeToAST E opts' n' s1 = (Inr p2, s2) \<and> events s2 = events s1
     \<and> queue s2 = queue s1 \<and> promise_at s2 p2 = promise_at s1 p1"
proof -
  let ?k = "cacheKey E n ''ast''"
  obtain c s0 where 1: "promise_resolve c s0 = (p1, s1)" and c: "truthy c" "cached_at ?k s0 = c"
  proof (cases "truthy (cached_at ?k s)")
    case True
    with assms(1) have "promise_resolve (cached_at ?k s) (s\<lparr>store := snd (lru_get ?k (store s))\<rparr>) = (p1, s1)"
      by (simp add: nodeToAST_hit split: prod.splits)
    with True that[of "cached_at ?k s" "s\<lparr>store := snd (lru_get ?k (store s))\<rparr>"] show ?thesis
      by simp
  next
    case False
    with assms(1) obtain d where "promise_resolve (VDoc d) (cache_set ?k (VDoc d) (emit (Load (source n)) (s\<lparr>store := snd (lru_get ?k (store s))\<rparr>))) = (p1, s1)"
      by (auto simp: nodeToAST_def cache_get_eq Let_def split: sum.splits prod.splits)
    with that[of "VDoc d"] show ?thesis
      by simp
  qed
  have c1: "cached_at ?k s1 = c"
    using cached_at_promise_resolve[of ?k c s0] 1 c by simp
  obtain p2 s2 where 2: "promise_resolve c (s1\<lparr>store := snd (lru_get ?k (store s1))\<rparr>) = (p2, s2)"
    by (cases "promise_resolve c (s1\<lparr>store := snd (lru_get ?k (store s1))\<rparr>)")
  have "nodeToAST E opts' n' s1 = (Inr p2, s2)"
    using c c1 2 assms(2) by (simp add: nodeToAST_hit)
  moreover have "promise_at s2 p2 = promise_at s1 p1 \<and> events s2 = events s1 \<and> queue s2 = queue s1"
    using promise_resolve_twice[OF 1 _ 2] by simp
  ultimately show ?thesis by blast
qed


section \<open>Effects of the operations\<close>

lemma store_ops [simp]:
  "store (emit e s) = store s"
  "store (enqueue t s) = store s"
  "store (settle p r s) = store s"
  "store (reject p er s) = store s"
  "store (resolve p v s) = store s"
  "store (subscribe q k s) = store s"
  "store (await v k s) = store s"
  "store (snd (promise_resolve v s)) = store s"
  "store (snd (new_promise s)) = store s"
  by (auto simp: emit_def enqueue_def settle_def reject_def resolve_def subscribe_def await_def
      promise_resolve_def new_promise_def split: option.splits pstate.splits val.splits)

lemma events_ops [simp]:
  "events (enqueue t s) = events s"
  "events (settle p r s) = events s"
  "events (reject p er s) = events s"
  "events (resolve p v s) = events s"
  "events (subscribe q k s) = events s"
  "events (await v k s) = events s"
  "events (snd (promise_resolve v s)) = events s"
  "events (snd (new_promise s)) = events s"
  "events (cache_set key v s) = events s"
  "events (emit e s) = events s @ [e]"
  by (auto simp: emit_def enqueue_def settle_def reject_def resolve_def subscribe_def await_def
      promise_resolve_def new_promise_def cache_set_def split: option.splits pstate.splits val.splits)

lemma list_all_lru_get: "list_all P xs \<Longrightarrow> list_all P (snd (lru_get k xs))"
proof (cases "map_of xs k")
  case None
  then show "list_all P xs \<Longrightarrow> ?thesis" by (simp add: lru_get_def)
next
  case (Some v)
  then have "(k, v) \<in> set xs" by (rule map_of_SomeD)
  with Some show "list_all P xs \<Longrightarrow> ?thesis" by (auto simp: lru_get_def list_all_iff)
qed

lemma list_all_lru_set: "P (k, v) \<Longrightarrow> list_all P xs \<Longrightarrow> list_all P (lru_set cap k v xs)"
  by (auto simp: lru_set_def list_all_iff dest!: in_set_takeD)

lemma store_truthy_ops [simp]:
  "store_truthy (emit e s) = store_truthy s"
  "store_truthy (enqueue t s) = store_truthy s"
  "store_truthy (settle p r s) = store_truthy s"
  "store_truthy (reject p er s) = store_truthy s"
  "store_truthy (resolve p v s) = store_truthy s"
  "store_truthy (subscribe q k s) = store_truthy s"
  "store_truthy (await v k s) = store_truthy s"
  "store_truthy (snd (promise_resolve v s)) = store_truthy s"
  "store_truthy (snd (new_promise s)) = store_truthy s"
  "store_truthy (s\<lparr>queue := ts\<rparr>) = store_truthy s"
  by (simp_all add: store_truthy_def)

lemma store_truthy_store [simp]:
  "store_truthy (s\<lparr>store := xs\<rparr>) = list_all (\<lambda>e. truthy (snd e)) xs"
  by (simp add: store_truthy_def)

lemma store_truthy_touch [simp]:
  "store_truthy s \<Longrightarrow> list_all (\<lambda>e. truthy (snd e)) (snd (lru_get k (store s)))"
  by (simp add: store_truthy_def list_all_lru_get)

lemma store_truthy_set [simp]: "truthy v \<Longrightarrow> store_truthy s \<Longrightarrow> store_truthy (cache_set k v s)"
  by (simp add: cache_set_def store_truthy_def list_all_lru_set)

lemma num_truthy_reading_time [simp]: "num_truthy (reading_time c speed)"
  by (simp add: reading_time_def Let_def)

lemma store_truthy_nodeToAST [simp]:
  "store_truthy s \<Longrightarrow> store_truthy (snd (nodeToAST E opts n s))"
  by (simp add: nodeToAST_def cache_get_eq Let_def case_prod_beta split: sum.splits)

lemma store_truthy_nodeToHTML [simp]:
  "store_truthy s \<Longrightarrow> store_truthy (snd (nodeToHTML E opts n s))"
  by (simp add: nodeToHTML_def cache_get_eq Let_def case_prod_beta split: sum.splits)

lemma store_truthy_headings [simp]:
  "store_truthy s \<Longrightarrow> store_truthy (snd (headings_resolve E opts n da st s))"
  by (simp add: headings_resolve_def cache_get_eq Let_def case_prod_beta split: sum.splits)

lemma store_truthy_timeToRead [simp]:
  "store_truthy s \<Longrightarrow> store_truthy (snd (timeToRead_resolve E opts n speed s))"
  by (simp add: timeToRead_resolve_def cache_get_eq Let_def case_prod_beta split: sum.splits)

lemma store_truthy_resume [simp]: "store_truthy s \<Longrightarrow> store_truthy (resume E k r s)"
  by (induction E k r s rule: resume.induct) (simp_all add: Let_def split: sum.splits)

lemma store_truthy_step [simp]: "store_truthy s \<Longrightarrow> store_truthy (step E s)"
proof (cases "queue s")
  case Nil
  then show "store_truthy s \<Longrightarrow> ?thesis" by (simp add: step_def)
next
  case (Cons t ts)
  then show "store_truthy s \<Longrightarrow> ?thesis" by (cases t) (simp_all add: step_def)
qed

lemma store_truthy_run: "store_truthy s \<Longrightarrow> store_truthy (run E s)"
proof (induction E s rule: run.induct)
  case (1 E s)
  show ?case
  proof (cases "queue s = []")
    case True
    with 1 show ?thesis by (simp add: run_done)
  next
    case False
    with 1 show ?thesis by (simp add: run_step)
  qed
qed

lemma stored_is_hit: "store_truthy s \<Longrightarrow> map_of (store s) k = Some v \<Longrightarrow> cached_at k s = v \<and> truthy v"
  by (auto simp: cached_at_def fst_lru_get store_truthy_def list_all_iff dest!: map_of_SomeD)

lemma reading_time_pos:
  assumes "0 < speed"
  shows "reading_time c speed = Num (of_int (max 1 (round (of_nat c / of_int speed :: rat))))"
proof -
  have "0 \<le> (of_nat c / of_int speed :: rat)" using assms by simp
  then have "0 \<le> round (of_nat c / of_int speed :: rat)"
    by (simp add: round_def) 
  then show ?thesis using assms
    by (auto simp: reading_time_def js_div_def Let_def max_def)
qed

lemma reading_time_zero:
  "speed \<noteq> 0 \<Longrightarrow> round (of_nat c / of_int speed :: rat) = 0 \<Longrightarrow> reading_time c speed = Num 1"
  by (simp add: reading_time_def js_div_def Let_def)

lemma reading_time_nonzero:
  "speed \<noteq> 0 \<Longrightarrow> round (of_nat c / of_int speed :: rat) \<noteq> 0 \<Longrightarrow>
     reading_time c speed = Num (of_int (round (of_nat c / of_int speed :: rat)))"
  by (simp add: reading_time_def js_div_def Let_def)

lemma settle_pending:
  "promise_at s p = Some (Pending ks) \<Longrightarrow>
   promise_at (settle p r s) p = Some (case r of Inl e \<Rightarrow> Rejected e | Inr v \<Rightarrow> Fulfilled v)"
  by (auto simp: settle_def promise_at_def split: if_splits)

lemma promise_at_ops [simp]:
  "promise_at (emit e s) p = promise_at s p"
  "promise_at (cache_set k v s) p = promise_at s p"
  "promise_at (enqueue t s) p = promise_at s p"
  "promise_at (s\<lparr>store := xs\<rparr>) p = promise_at s p"
  "promise_at (s\<lparr>queue := ts\<rparr>) p = promise_at s p"
  by (simp_all add: promise_at_def emit_def cache_set_def enqueue_def)

lemma cached_at_ops [simp]:
  "cached_at k (emit e s) = cached_at k s"
  "cached_at k (enqueue t s) = cached_at k s"
  "cached_at k (settle p r s) = cached_at k s"
  "cached_at k (reject p er s) = cached_at k s"
  "cached_at k (resolve p v s) = cached_at k s"
  "cached_at k (subscribe q c s) = cached_at k s"
  "cached_at k (await v c s) = cached_at k s"
  "cached_at k (snd (new_promise s)) = cached_at k s"
  by (simp_all add: cached_at_def)


lemma headings_hit:
  "truthy (cached_at (cacheKey E n ''headings'') s) \<Longrightarrow>
   headings_resolve E opts n da st s =
     (length (heap s),
      resolve (length (heap s)) (cached_at (cacheKey E n ''headings'') s)
        (s\<lparr>heap := heap s @ [Pending []],
           store := snd (lru_get (cacheKey E n ''headings'') (store s))\<rparr>))"
  by (simp add: headings_resolve_def new_promise_def cache_get_eq Let_def)

lemma timeToRead_hit:
  "truthy (cached_at (cacheKey E n ''timeToRead'') s) \<Longrightarrow>
   timeToRead_resolve E opts n speed s =
     (length (heap s),
      resolve (length (heap s)) (cached_at (cacheKey E n ''timeToRead'') s)
        (s\<lparr>heap := heap s @ [Pending []],
           store := snd (lru_get (cacheKey E n ''timeToRead'') (store s))\<rparr>))"
  by (simp add: timeToRead_resolve_def new_promise_def cache_get_eq Let_def)

lemma settle_fresh:
  "promise_at (settle (length (heap s)) r (s\<lparr>heap := heap s @ [Pending []], store := xs\<rparr>)) (length (heap s))
     = Some (case r of Inl e \<Rightarrow> Rejected e | Inr v \<Rightarrow> Fulfilled v)"
  by (simp add: settle_def promise_at_def)

lemma run_Cons: "queue s = t # ts \<Longrightarrow> run E s = run E (run_task E t (s\<lparr>queue := ts\<rparr>))"
  by (simp add: run_step step_def)

lemma cached_at_alt: "fst (lru_get k (store s)) = cached_at k s"
  by (simp add: cached_at_def)

lemma queue_settle_nil: "promise_at s p = Some (Pending []) \<Longrightarrow> queue (settle p r s) = queue s"
  by (simp add: settle_def)

lemma queue_ops [simp]:
  "queue (emit e s) = queue s"
  "queue (cache_set k v s) = queue s"
  "queue (enqueue t s) = queue s @ [t]"
  "queue (snd (promise_resolve v s)) = queue s"
  "queue (snd (new_promise s)) = queue s"
  by (auto simp: emit_def cache_set_def enqueue_def promise_resolve_def new_promise_def split: val.splits)

lemma html_once:
  assumes "queue s = []"
    and "\<not> truthy (cached_at (cacheKey E n ''html'') s)"
    and "\<not> truthy (cached_at (cacheKey E n ''ast'') s)"
    and "load E (source n) opts (dirname E (path n)) = Inr d"
    and "convert E d opts (dirname E (path n)) = Inr html"
    and "nodeToHTML E opts n s = (p1, s1)"
    and "cacheKey E n' ''html'' = cacheKey E n ''html''"
    and "nodeToHTML E opts' n' s1 = (p2, s2)"
  shows "cached_at (cacheKey E n ''html'') s1 = VProm p1 \<and> promise_at s1 p1 = Some (Pending [])
     \<and> p2 = p1 \<and> events (run E s2) = events s @ [Load (source n), Convert]
     \<and> promise_at (run E s2) p1 = Some (Fulfilled (VStr html))"
proof -
  let ?kh = "cacheKey E n ''html''" and ?ka = "cacheKey E n ''ast''"
  let ?p = "length (heap s)"
  have s1: "p1 = ?p" "s1 = cache_set ?kh (VProm ?p) (cache_set ?ka (VDoc d) (emit (Load (source n))
      (s\<lparr>store := snd (lru_get ?ka (snd (lru_get ?kh (store s)))),
          heap := heap s @ [Pending [], Fulfilled (VDoc d)],
          queue := [Resume (KHtml ?p n opts) (Inr (VDoc d))]\<rparr>)))"
    using assms(1-4,6)
    by (auto simp: nodeToHTML_def nodeToAST_def cache_get_eq new_promise_def promise_resolve_def
        await_def subscribe_def enqueue_def promise_at_def cache_set_def emit_def Let_def nth_append)
  have c1: "cached_at ?kh s1 = VProm ?p" unfolding s1 by simp
  have s2: "p2 = ?p" "s2 = s1\<lparr>store := snd (lru_get ?kh (store s1))\<rparr>"
    using assms(8) c1 by (auto simp: nodeToHTML_hit assms(7) promise_resolve_def)
  have q2: "queue s2 = [Resume (KHtml ?p n opts) (Inr (VDoc d))]"
    unfolding s2 s1 by (simp add: cache_set_def emit_def)
  have pp: "promise_at (s2\<lparr>queue := []\<rparr>) ?p = Some (Pending [])"
    unfolding s2 s1 by (simp add: promise_at_def cache_set_def emit_def nth_append)
  let ?t = "settle ?p (Inr (VStr html)) (emit Convert (s2\<lparr>queue := []\<rparr>))"
  have "queue ?t = []"
    using pp by (simp add: queue_settle_nil)
  then have "run E ?t = ?t" by (rule run_done)
  then have r: "run E s2 = ?t"
    using assms(5) by (simp add: run_Cons[OF q2] resolve_def)
  have ev: "events s2 = events s @ [Load (source n)]"
    unfolding s2 s1 by simp
  have p1: "promise_at s1 ?p = Some (Pending [])"
    unfolding s1 by (simp add: promise_at_def cache_set_def emit_def nth_append)
  show ?thesis using s1(1) s2(1) ev pp c1 p1 by (simp add: r settle_pending)
qed

lemma map_of_take: "map_of (take m xs) k = None \<or> map_of (take m xs) k = map_of xs k"
proof (induction xs arbitrary: m)
  case Nil
  then show ?case by simp
next
  case (Cons x xs)
  then show ?case by (cases m) auto
qed

lemma miss_after_set:
  assumes "k \<noteq> k'" and "\<not> truthy (cached_at k s)"
  shows "\<not> truthy (cached_at k (cache_set k' v s))"
proof -
  let ?ys = "(k', v) # filter (\<lambda>e. fst e \<noteq> k') (store s)"
  have "map_of ?ys k = map_of (store s) k"
    using assms(1) by (simp add: map_of_filter_neq)
  with map_of_take[of max_entries ?ys k]
  have "map_of (lru_set max_entries k' v (store s)) k = None
      \<or> map_of (lru_set max_entries k' v (store s)) k = map_of (store s) k"
    by (simp add: lru_set_def)
  with assms(2) show ?thesis
    by (auto simp: cached_at_def fst_lru_get cache_set_def)
qed

lemma cached_at_store: "cached_at k (s\<lparr>store := xs\<rparr>) = fst (lru_get k xs)"
  by (simp add: cached_at_def)

lemmas cached_norm = cached_at_store fst_lru_get_touch cached_at_alt

lemma settle_Pending:
  assumes "promise_at s p = Some (Pending ks)"
  shows "queue (settle p r s) = queue s @ map (\<lambda>k. Resume k r) ks"
    and "promise_at (settle p r s) p' =
          (if p' = p then Some (case r of Inl e \<Rightarrow> Rejected e | Inr v \<Rightarrow> Fulfilled v)
           else promise_at s p')"
  using assms by (auto simp: settle_def promise_at_def split: if_splits)

lemma html_cold:
  assumes "queue s = []"
    and "\<not> truthy (cached_at (cacheKey E n ''html'') s)"
    and "\<not> truthy (cached_at (cacheKey E n ''ast'') s)"
    and "load E (source n) opts (dirname E (path n)) = Inr d"
    and "convert E d opts (dirname E (path n)) = Inr html"
    and "nodeToHTML E opts n s = (p1, s1)"
  shows "queue (run E s1) = []"
    and "events (run E s1) = events s @ [Load (source n), Convert]"
    and "promise_at (run E s1) p1 = Some (Fulfilled (VStr html))"
    and "cached_at (cacheKey E n ''html'') (run E s1) = VProm p1"
proof -
  let ?kh = "cacheKey E n ''html''" and ?ka = "cacheKey E n ''ast''"
  let ?p = "length (heap s)"
  have s1: "p1 = ?p" "s1 = cache_set ?kh (VProm ?p) (cache_set ?ka (VDoc d) (emit (Load (source n))
      (s\<lparr>store := snd (lru_get ?ka (snd (lru_get ?kh (store s)))),
          heap := heap s @ [Pending [], Fulfilled (VDoc d)],
          queue := [Resume (KHtml ?p n opts) (Inr (VDoc d))]\<rparr>)))"
    using assms(1-4,6)
    by (auto simp: nodeToHTML_def nodeToAST_def cache_get_eq new_promise_def promise_resolve_def
        await_def subscribe_def enqueue_def promise_at_def cache_set_def emit_def Let_def nth_append)
  have c1: "cached_at ?kh s1 = VProm ?p" unfolding s1 by simp
  have q1: "queue s1 = [Resume (KHtml ?p n opts) (Inr (VDoc d))]"
    and e1: "events s1 = events s @ [Load (source n)]"
    and pa: "promise_at s1 ?p = Some (Pending [])"
    unfolding s1 by (simp_all add: promise_at_def cache_set_def emit_def nth_append)
  define t1 where "t1 = settle ?p (Inr (VStr html)) (emit Convert (s1\<lparr>queue := []\<rparr>))"
  have r1: "run E s1 = run E t1"
    unfolding t1_def using assms(5) by (subst run_Cons[OF q1]) (simp add: resolve_def)
  have t1: "queue t1 = []" "events t1 = events s @ [Load (source n), Convert]"
    "promise_at t1 ?p = Some (Fulfilled (VStr html))" "cached_at ?kh t1 = VProm ?p"
    unfolding t1_def using pa e1 c1 by (simp_all add: settle_Pending)
  have r2: "run E t1 = t1" using t1(1) by (rule run_done)
  show "queue (run E s1) = []"
    and "events (run E s1) = events s @ [Load (source n), Convert]"
    and "promise_at (run E s1) p1 = Some (Fulfilled (VStr html))"
    and "cached_at ?kh (run E s1) = VProm p1"
    using t1 by (simp_all add: r1 r2 s1(1))
qed

lemma ast_cold:
  assumes "\<not> truthy (cached_at (cacheKey E n ''ast'') s)"
    and "load E (source n) opts (dirname E (path n)) = Inr d"
    and "nodeToAST E opts n s = (r, s1)"
  shows "r = Inr (length (heap s))"
    and "promise_at s1 (length (heap s)) = Some (Fulfilled (VDoc d))"
    and "events s1 = events s @ [Load (source n)]"
  using assms
  by (auto simp: nodeToAST_def cache_get_eq promise_resolve_def promise_at_def Let_def nth_append
      cache_set_def emit_def)

lemma headings_twice:
  assumes "queue s = []"
    and "\<not> truthy (cached_at (cacheKey E n ''headings'') s)"
    and "\<not> truthy (cached_at (cacheKey E n ''ast'') s)"
    and "cacheKey E n ''headings'' \<noteq> cacheKey E n ''ast''"
    and "load E (source n) opts (dirname E (path n)) = Inr d"
    and "headings_resolve E opts n da st s = (p1, s1)"
    and "headings_resolve E opts n da' st' s1 = (p2, s2)"
  shows "\<not> truthy (cached_at (cacheKey E n ''headings'') s1) \<and> p2 \<noteq> p1
     \<and> events (run E s2) = events s @ [Load (source n), HeadingsComputed, HeadingsComputed]
     \<and> promise_at (run E s2) p1 = Some (Fulfilled (VArr (map to_heading (getRefs E d))))
     \<and> promise_at (run E s2) p2 = Some (Fulfilled (VArr (map to_heading (getRefs E d))))"
proof -
  let ?kh = "cacheKey E n ''headings''" and ?ka = "cacheKey E n ''ast''"
  let ?p = "length (heap s)"
  let ?hs = "VArr (map to_heading (getRefs E d)) :: 'b val"
  let ?u = "emit (Load (source n))
      (s\<lparr>store := snd (lru_get ?ka (snd (lru_get ?kh (store s)))),
          heap := heap s @ [Pending [], Fulfilled (VDoc d)],
          queue := [Resume (KHeadings ?p ?kh) (Inr (VDoc d))]\<rparr>)"
  have s1: "p1 = ?p" "s1 = cache_set ?ka (VDoc d) ?u"
    using assms(1-3,5,6)
    by (auto simp: headings_resolve_def nodeToAST_def cache_get_eq new_promise_def promise_resolve_def
        await_def subscribe_def enqueue_def promise_at_def cache_set_def emit_def Let_def nth_append
        cached_norm)
  have "\<not> truthy (cached_at ?kh ?u)"
    using assms(2) by (simp add: emit_def cached_at_def fst_lru_get_touch)
  then have m1: "\<not> truthy (cached_at ?kh s1)"
    unfolding s1 using assms(4) by (rule miss_after_set[rotated])
  have a1: "cached_at ?ka s1 = VDoc d" unfolding s1 by simp
  have h1: "heap s1 = heap s @ [Pending [], Fulfilled (VDoc d)]"
    and q1: "queue s1 = [Resume (KHeadings ?p ?kh) (Inr (VDoc d))]"
    and e1: "events s1 = events s @ [Load (source n)]"
    unfolding s1 by (simp_all add: cache_set_def emit_def)
  have s2: "p2 = Suc (Suc ?p)"
    "s2 = s1\<lparr>store := snd (lru_get ?ka (snd (lru_get ?kh (store s1)))),
            heap := heap s @ [Pending [], Fulfilled (VDoc d), Pending [], Fulfilled (VDoc d)],
            queue := [Resume (KHeadings ?p ?kh) (Inr (VDoc d)),
                      Resume (KHeadings (Suc (Suc ?p)) ?kh) (Inr (VDoc d))]\<rparr>"
    using assms(7) m1 a1 h1 q1
    by (auto simp: headings_resolve_def nodeToAST_def cache_get_eq new_promise_def promise_resolve_def
        await_def subscribe_def enqueue_def promise_at_def Let_def nth_append cached_norm)
  have pa: "promise_at s2 ?p = Some (Pending [])" "promise_at s2 (Suc (Suc ?p)) = Some (Pending [])"
    unfolding s2 by (simp_all add: promise_at_def nth_append)
  have q2: "queue s2 = [Resume (KHeadings ?p ?kh) (Inr (VDoc d)),
                      Resume (KHeadings (Suc (Suc ?p)) ?kh) (Inr (VDoc d))]"
    and e2: "events s2 = events s @ [Load (source n)]"
    unfolding s2 by (simp_all add: e1)
  define t1 where "t1 = settle ?p (Inr ?hs) (cache_set ?kh ?hs (emit HeadingsComputed
      (s2\<lparr>queue := [Resume (KHeadings (Suc (Suc ?p)) ?kh) (Inr (VDoc d))]\<rparr>)))"
  have r1: "run E s2 = run E t1"
    unfolding t1_def by (subst run_Cons[OF q2]) (simp add: resolve_def Let_def)
  have t1: "queue t1 = [Resume (KHeadings (Suc (Suc ?p)) ?kh) (Inr (VDoc d))]"
    "events t1 = events s @ [Load (source n), HeadingsComputed]"
    "promise_at t1 ?p = Some (Fulfilled ?hs)"
    "promise_at t1 (Suc (Suc ?p)) = Some (Pending [])"
    unfolding t1_def using pa e2 by (simp_all add: settle_Pending)
  define t2 where "t2 = settle (Suc (Suc ?p)) (Inr ?hs) (cache_set ?kh ?hs (emit HeadingsComputed
      (t1\<lparr>queue := []\<rparr>)))"
  have r2: "run E t1 = run E t2"
    unfolding t2_def by (subst run_Cons[OF t1(1)]) (simp add: resolve_def Let_def)
  have t2: "queue t2 = []"
    "events t2 = events s @ [Load (source n), HeadingsComputed, HeadingsComputed]"
    "promise_at t2 ?p = Some (Fulfilled ?hs)"
    "promise_at t2 (Suc (Suc ?p)) = Some (Fulfilled ?hs)"
    unfolding t2_def using t1 by (simp_all add: settle_Pending)
  have r3: "run E t2 = t2" using t2(1) by (rule run_done)
  show ?thesis
    using t2 m1 by (simp add: r1 r2 r3 s1(1) s2(1))
qed


lemma timeToRead_twice:
  assumes "queue s = []"
    and "\<not> truthy (cached_at (cacheKey E n ''timeToRead'') s)"
    and "\<not> truthy (cached_at (cacheKey E n ''html'') s)"
    and "\<not> truthy (cached_at (cacheKey E n ''ast'') s)"
    and "cacheKey E n ''timeToRead'' \<noteq> cacheKey E n ''html''"
    and "cacheKey E n ''timeToRead'' \<noteq> cacheKey E n ''ast''"
    and "load E (source n) opts (dirname E (path n)) = Inr d"
    and "convert E d opts (dirname E (path n)) = Inr html"
    and "sanitizeHTML E (VStr html) = Inr text"
    and "timeToRead_resolve E opts n speed s = (p1, s1)"
    and "timeToRead_resolve E opts n speed' s1 = (p2, s2)"
  shows "\<not> truthy (cached_at (cacheKey E n ''timeToRead'') s1) \<and> p2 \<noteq> p1
     \<and> events (run E s2) = events s @ [Load (source n), Convert, TimeComputed, TimeComputed]
     \<and> promise_at (run E s2) p1 = Some (Fulfilled (VNum (reading_time (length (words E text)) speed)))
     \<and> promise_at (run E s2) p2 = Some (Fulfilled (VNum (reading_time (length (words E text)) speed')))"
proof -
  let ?kt = "cacheKey E n ''timeToRead''" and ?kh = "cacheKey E n ''html''"
  let ?ka = "cacheKey E n ''ast''"
  let ?p = "length (heap s)"
  let ?K1 = "KTime ?p ?kt speed" and ?K2 = "KTime (Suc (Suc (Suc ?p))) ?kt speed'"
  let ?T = "Resume (KHtml (Suc ?p) n opts) (Inr (VDoc d)) :: ('a, 'b) task"
  let ?u = "emit (Load (source n))
      (s\<lparr>store := snd (lru_get ?ka (snd (lru_get ?kh (snd (lru_get ?kt (store s)))))),
          heap := heap s @ [Pending [], Pending [?K1], Fulfilled (VDoc d)],
          queue := [?T]\<rparr>)"
  have s1: "p1 = ?p" "s1 = cache_set ?kh (VProm (Suc ?p)) (cache_set ?ka (VDoc d) ?u)"
    using assms(1-4,7,10)
    by (auto simp: timeToRead_resolve_def nodeToHTML_def nodeToAST_def cache_get_eq new_promise_def
        promise_resolve_def await_def subscribe_def enqueue_def promise_at_def cache_set_def emit_def
        Let_def nth_append list_update_append cached_norm)
  have "\<not> truthy (cached_at ?kt ?u)"
    using assms(2) by (simp add: emit_def cached_norm)
  then have "\<not> truthy (cached_at ?kt (cache_set ?ka (VDoc d) ?u))"
    using assms(6) by (rule miss_after_set[rotated])
  then have m1: "\<not> truthy (cached_at ?kt s1)"
    unfolding s1 using assms(5) by (rule miss_after_set[rotated])
  have c1: "cached_at ?kh s1 = VProm (Suc ?p)" unfolding s1 by simp
  have h1: "heap s1 = heap s @ [Pending [], Pending [?K1], Fulfilled (VDoc d)]"
    and q1: "queue s1 = [?T]"
    and e1: "events s1 = events s @ [Load (source n)]"
    unfolding s1 by (simp_all add: cache_set_def emit_def)
  have s2: "p2 = Suc (Suc (Suc ?p))"
    "s2 = s1\<lparr>store := snd (lru_get ?kh (snd (lru_get ?kt (store s1)))),
            heap := heap s @ [Pending [], Pending [?K1, ?K2], Fulfilled (VDoc d), Pending []]\<rparr>"
    using assms(11) m1 c1 h1 q1
    by (auto simp: timeToRead_resolve_def nodeToHTML_def cache_get_eq new_promise_def promise_resolve_def
        await_def subscribe_def enqueue_def promise_at_def Let_def nth_append list_update_append cached_norm)
  have pa: "promise_at s2 ?p = Some (Pending [])"
    "promise_at s2 (Suc ?p) = Some (Pending [?K1, ?K2])"
    "promise_at s2 (Suc (Suc (Suc ?p))) = Some (Pending [])"
    unfolding s2 by (simp_all add: promise_at_def nth_append)
  have q2: "queue s2 = [?T]" and e2: "events s2 = events s @ [Load (source n)]"
    unfolding s2 by (simp_all add: e1 q1)
  let ?h = "Inr (VStr html) :: err + 'b val"
  define t1 where "t1 = settle (Suc ?p) ?h (emit Convert (s2\<lparr>queue := []\<rparr>))"
  have r1: "run E s2 = run E t1"
    unfolding t1_def using assms(8) by (subst run_Cons[OF q2]) (simp add: resolve_def)
  have t1: "queue t1 = [Resume ?K1 ?h, Resume ?K2 ?h]"
    "events t1 = events s @ [Load (source n), Convert]"
    "promise_at t1 ?p = Some (Pending [])"
    "promise_at t1 (Suc (Suc (Suc ?p))) = Some (Pending [])"
    unfolding t1_def using pa e2 by (simp_all add: settle_Pending)
  let ?m1 = "VNum (reading_time (length (words E text)) speed) :: 'b val"
  let ?m2 = "VNum (reading_time (length (words E text)) speed') :: 'b val"
  define t2 where "t2 = settle ?p (Inr ?m1) (cache_set ?kt ?m1 (emit TimeComputed
      (t1\<lparr>queue := [Resume ?K2 ?h]\<rparr>)))"
  have r2: "run E t1 = run E t2"
    unfolding t2_def using assms(9) by (subst run_Cons[OF t1(1)]) (simp add: resolve_def Let_def)
  have t2: "queue t2 = [Resume ?K2 ?h]"
    "events t2 = events s @ [Load (source n), Convert, TimeComputed]"
    "promise_at t2 ?p = Some (Fulfilled ?m1)"
    "promise_at t2 (Suc (Suc (Suc ?p))) = Some (Pending [])"
    unfolding t2_def using t1 by (simp_all add: settle_Pending)
  define t3 where "t3 = settle (Suc (Suc (Suc ?p))) (Inr ?m2) (cache_set ?kt ?m2 (emit TimeComputed
      (t2\<lparr>queue := []\<rparr>)))"
  have r3: "run E t2 = run E t3"
    unfolding t3_def using assms(9) by (subst run_Cons[OF t2(1)]) (simp add: resolve_def Let_def)
  have t3: "queue t3 = []"
    "events t3 = events s @ [Load (source n), Convert, TimeComputed, TimeComputed]"
    "promise_at t3 ?p = Some (Fulfilled ?m1)"
    "promise_at t3 (Suc (Suc (Suc ?p))) = Some (Fulfilled ?m2)"
    unfolding t3_def using t2 by (simp_all add: settle_Pending)
  have r4: "run E t3 = t3" using t3(1) by (rule run_done)
  show ?thesis
    using t3 m1 by (simp add: r1 r2 r3 r4 s1(1) s2(1))
qed

lemma nodeToAST_shape:
  assumes "nodeToAST E opts n s = (r, s')"
  shows "queue s' = queue s" and "p < length (heap s) \<Longrightarrow> promise_at s' p = promise_at s p"
  using assms
  by (auto simp: nodeToAST_def cache_get_eq promise_resolve_def promise_at_def cache_set_def emit_def
        Let_def nth_append split: sum.splits val.splits if_splits)

lemma subscribe_shape:
  "queue (subscribe q k s) = queue s \<or>
   (\<exists>r. queue (subscribe q k s) = queue s @ [Resume k r]
      \<and> (\<forall>p. promise_at (subscribe q k s) p = promise_at s p))"
  by (auto simp: subscribe_def enqueue_def split: option.splits pstate.splits)

lemma nodeToHTML_queue:
  assumes "queue s = []" and "nodeToHTML E opts n s = (p, s1)"
  shows "queue s1 = [] \<or>
    (\<exists>r. queue s1 = [Resume (KHtml p n opts) r] \<and> promise_at s1 p = Some (Pending []))"
proof (cases "truthy (cached_at (cacheKey E n ''html'') s)")
  case True
  with assms show ?thesis
    by (cases "cached_at (cacheKey E n ''html'') s") (auto simp: nodeToHTML_hit promise_resolve_def)
next
  case False
  let ?k = "cacheKey E n ''html''"
  let ?s2 = "s\<lparr>store := snd (lru_get ?k (store s)), heap := heap s @ [Pending []]\<rparr>"
  let ?p = "length (heap s)"
  obtain r s' where ast: "nodeToAST E opts n ?s2 = (r, s')"
    by (cases "nodeToAST E opts n ?s2")
  have q': "queue s' = []" using nodeToAST_shape(1)[OF ast] assms(1) by simp
  have p': "promise_at s' ?p = Some (Pending [])"
    using nodeToAST_shape(2)[OF ast, of ?p] by (simp add: promise_at_def)
  show ?thesis
  proof (cases r)
    case (Inl e)
    with False assms(2) ast have "p = ?p" "s1 = cache_set ?k (VProm ?p) (reject ?p e s')"
      by (auto simp: nodeToHTML_def cache_get_eq new_promise_def promise_resolve_def Let_def)
    with q' p' show ?thesis by (simp add: reject_def settle_Pending)
  next
    case (Inr q)
    with False assms(2) ast have s1: "p = ?p" "s1 = cache_set ?k (VProm ?p) (subscribe q (KHtml ?p n opts) s')"
      by (auto simp: nodeToHTML_def cache_get_eq new_promise_def promise_resolve_def Let_def await_def)
    from subscribe_shape[of q "KHtml ?p n opts" s'] q' p' show ?thesis
      unfolding s1 by auto
  qed
qed

lemma resume_KHtml_quiet:
  assumes "promise_at s p = Some (Pending [])"
  shows "queue (resume E (KHtml p n opts) r s) = queue s"
    and "store (resume E (KHtml p n opts) r s) = store s"
proof -
  have "queue (resume E (KHtml p n opts) r s) = queue s \<and> store (resume E (KHtml p n opts) r s) = store s"
  proof (cases r)
    case (Inl e)
    with assms show ?thesis by (simp add: reject_def settle_Pending)
  next
    case (Inr v)
    with assms show ?thesis
      by (cases v) (auto simp: reject_def resolve_def settle_Pending split: sum.splits)
  qed
  then show "queue (resume E (KHtml p n opts) r s) = queue s"
    and "store (resume E (KHtml p n opts) r s) = store s" by simp_all
qed

lemma run_after_nodeToHTML:
  assumes "queue s = []" and "nodeToHTML E opts n s = (p, s1)"
  shows "queue (run E s1) = []" and "store (run E s1) = store s1"
proof -
  from nodeToHTML_queue[OF assms]
  have "queue (run E s1) = [] \<and> store (run E s1) = store s1"
  proof
    assume "queue s1 = []"
    then show ?thesis by (simp add: run_done)
  next
    assume "\<exists>r. queue s1 = [Resume (KHtml p n opts) r] \<and> promise_at s1 p = Some (Pending [])"
    then obtain r where q: "queue s1 = [Resume (KHtml p n opts) r]"
      and pa: "promise_at s1 p = Some (Pending [])" by blast
    let ?t = "resume E (KHtml p n opts) r (s1\<lparr>queue := []\<rparr>)"
    from pa have "promise_at (s1\<lparr>queue := []\<rparr>) p = Some (Pending [])" by simp
    from resume_KHtml_quiet[OF this, of E n opts r]
    have t: "queue ?t = []" "store ?t = store s1" by simp_all
    have "run E s1 = run E ?t" by (subst run_Cons[OF q]) simp
    also have "\<dots> = ?t" using t(1) by (rule run_done)
    finally show ?thesis using t by simp
  qed
  then show "queue (run E s1) = []" and "store (run E s1) = store s1" by simp_all
qed


section \<open>What the fingerprint depends on\<close>

text \<open>
  C9: the fingerprint is computed from \<open>content\<close>, \<open>internal.origin\<close>,
  \<open>internal.timestamp\<close> and the derivation key only. Two nodes \<open>n\<close> and \<open>n'\<close> that agree
  on the three fields get the same fingerprint for every key, whatever their \<open>source\<close>
  and \<open>path\<close>. After a call of \<open>_nodeToAST\<close> or \<open>_nodeToHTML\<close> for \<open>n\<close>, the call for
  \<open>n'\<close>, also from a transformer with other options, invokes neither the parser nor the
  converter and schedules nothing; after a miss of \<open>_nodeToHTML\<close> for \<open>n\<close> it returns the
  very promise stored for \<open>n\<close>. When the fingerprints of \<open>n\<close> were not cached, what the
  caller for \<open>n'\<close> receives is the document parsed from the source of \<open>n\<close> and the
  output rendered from it with the options of the first caller, whether it asks before
  or after the jobs of the first call have run; the source of \<open>n'\<close> is never parsed.
\<close>

theorem cacheKey_fields:
  assumes "content n = content n'" and "origin n = origin n'" and "timestamp n = timestamp n'"
    and "nodeToAST E opts n s = (Inr p1, s1)"
    and "nodeToHTML E opts n s = (q1, t1)"
  shows "cacheKey E n k = cacheKey E n' k
    \<and> (\<exists>p2 s2. nodeToAST E opts' n' s1 = (Inr p2, s2) \<and> events s2 = events s1
          \<and> promise_at s2 p2 = promise_at s1 p1)
    \<and> (\<exists>q2 t2. nodeToHTML E opts' n' t1 = (q2, t2) \<and> events t2 = events t1
          \<and> queue t2 = queue t1 \<and> promise_at t2 q2 = promise_at t1 q1
          \<and> (\<not> truthy (cached_at (cacheKey E n ''html'') s) \<longrightarrow>
                q2 = q1 \<and> cached_at (cacheKey E n' ''html'') t1 = VProm q1))
    \<and> (\<not> truthy (cached_at (cacheKey E n ''ast'') s)
         \<and> load E (source n) opts (dirname E (path n)) = Inr d \<longrightarrow>
        (let (r2, s2) = nodeToAST E opts' n' s1
         in (\<exists>p2. r2 = Inr p2 \<and> promise_at s2 p2 = Some (Fulfilled (VDoc d)))
            \<and> events s2 = events s @ [Load (source n)]))
    \<and> (queue s = [] \<and> \<not> truthy (cached_at (cacheKey E n ''html'') s)
         \<and> \<not> truthy (cached_at (cacheKey E n ''ast'') s)
         \<and> load E (source n) opts (dirname E (path n)) = Inr d
         \<and> convert E d opts (dirname E (path n)) = Inr html \<longrightarrow>
        (let (q2, t2) = nodeToHTML E opts' n' t1; u = run E t2
         in q2 = q1 \<and> promise_at u q2 = Some (Fulfilled (VStr html))
            \<and> events u = events s @ [Load (source n), Convert])
        \<and> (let u = run E t1; (q2, t2) = nodeToHTML E opts' n' u
           in q2 = q1 \<and> promise_at t2 q2 = Some (Fulfilled (VStr html))
              \<and> events t2 = events s @ [Load (source n), Convert] \<and> queue t2 = []))"
proof -
  have k: "cacheKey E n' k = cacheKey E n k" for k
    using assms(1-3) by (simp add: cacheKey_def)
  let ?kh = "cacheKey E n ''html''"
  obtain q2 t2 where h: "nodeToHTML E opts' n' t1 = (q2, t2)"
    by (cases "nodeToHTML E opts' n' t1")
  obtain q3 t3 where g: "nodeToHTML E opts' n' (run E t1) = (q3, t3)"
    by (cases "nodeToHTML E opts' n' (run E t1)")
  obtain r2 s2 where f: "nodeToAST E opts' n' s1 = (r2, s2)"
    by (cases "nodeToAST E opts' n' s1")
  have f1: "\<exists>p2 s2. nodeToAST E opts' n' s1 = (Inr p2, s2) \<and> events s2 = events s1
      \<and> promise_at s2 p2 = promise_at s1 p1"
    using nodeToAST_again[OF assms(4) k, of opts'] by blast
  have f2: "events t2 = events t1 \<and> queue t2 = queue t1 \<and> promise_at t2 q2 = promise_at t1 q1
      \<and> (\<not> truthy (cached_at ?kh s) \<longrightarrow> q2 = q1 \<and> cached_at (cacheKey E n' ''html'') t1 = VProm q1)"
    using nodeToHTML_again[OF assms(5) k h] nodeToHTML_miss[OF _ assms(5)] by (simp add: k)
  have f3: "(\<exists>p2. r2 = Inr p2 \<and> promise_at s2 p2 = Some (Fulfilled (VDoc d)))
      \<and> events s2 = events s @ [Load (source n)]"
    if "\<not> truthy (cached_at (cacheKey E n ''ast'') s)"
      "load E (source n) opts (dirname E (path n)) = Inr d"
  proof -
    note a = ast_cold[OF that assms(4)]
    from f1 f obtain p2 where "r2 = Inr p2" "events s2 = events s1"
      "promise_at s2 p2 = promise_at s1 p1" by auto
    with a show ?thesis by auto
  qed
  have f4: "q2 = q1 \<and> promise_at (run E t2) q2 = Some (Fulfilled (VStr html))
      \<and> events (run E t2) = events s @ [Load (source n), Convert]"
    if "queue s = []" "\<not> truthy (cached_at ?kh s)" "\<not> truthy (cached_at (cacheKey E n ''ast'') s)"
      "load E (source n) opts (dirname E (path n)) = Inr d"
      "convert E d opts (dirname E (path n)) = Inr html"
    using html_once[OF that assms(5) k h] by simp
  have f5: "q3 = q1 \<and> promise_at t3 q3 = Some (Fulfilled (VStr html))
      \<and> events t3 = events s @ [Load (source n), Convert] \<and> queue t3 = []"
    if "queue s = []" "\<not> truthy (cached_at ?kh s)" "\<not> truthy (cached_at (cacheKey E n ''ast'') s)"
      "load E (source n) opts (dirname E (path n)) = Inr d"
      "convert E d opts (dirname E (path n)) = Inr html"
  proof -
    note c = html_cold[OF that assms(5)]
    have t: "truthy (cached_at (cacheKey E n' ''html'') (run E t1))" by (simp add: k c(4))
    from g have "q3 = q1" "t3 = (run E t1)\<lparr>store := snd (lru_get ?kh (store (run E t1)))\<rparr>"
      by (auto simp: nodeToHTML_hit[OF t] k c(4) promise_resolve_def)
    with c show ?thesis by simp
  qed
  show ?thesis
  proof (intro conjI, goal_cases)
    case 1
    show ?case by (simp add: k)
  next
    case 2
    show ?case by (rule f1)
  next
    case 3
    show ?case using f2 h by blast
  next
    case 4
    show ?case using f3 by (simp add: f)
  next
    case 5
    show ?case
    proof (intro impI, goal_cases)
      case prems: 1
      from prems have a: "queue s = []" "\<not> truthy (cached_at ?kh s)"
        "\<not> truthy (cached_at (cacheKey E n ''ast'') s)"
        "load E (source n) opts (dirname E (path n)) = Inr d"
        "convert E d opts (dirname E (path n)) = Inr html"
        by simp_all
      show ?case using f4[OF a] f5[OF a] by (auto simp: h g)
    qed
  qed
qed

theorem cacheKey_fields_witness:
  "content (ex_node ''one'') = content (ex_node ''other'')
    \<and> source (ex_node ''one'') \<noteq> source (ex_node ''other'')
    \<and> cacheKey ex_ext (ex_node ''one'') ''html'' = cacheKey ex_ext (ex_node ''other'') ''html''
    \<and> (let (q2, t2) = nodeToHTML ex_ext [(''backend'', ''docbook'')] (ex_node ''other'')
                       (snd (nodeToHTML ex_ext [] (ex_node ''one'') init));
            u = run ex_ext t2
        in q2 = 0 \<and> promise_at u q2 = Some (Fulfilled (VStr ''<p>one</p>''))
           \<and> events u = events (init :: (hashed, string) state) @ [Load (source (ex_node ''one'')), Convert])
    \<and> (let u = run ex_ext (snd (nodeToHTML ex_ext [] (ex_node ''one'') init));
            (q2, t2) = nodeToHTML ex_ext [(''backend'', ''docbook'')] (ex_node ''other'') u
        in q2 = 0 \<and> promise_at t2 q2 = Some (Fulfilled (VStr ''<p>one</p>''))
           \<and> events t2 = events (init :: (hashed, string) state) @ [Load (source (ex_node ''one'')), Convert]
           \<and> queue t2 = [])
    \<and> (let (r2, s2) = nodeToAST ex_ext [(''backend'', ''docbook'')] (ex_node ''other'')
                       (snd (nodeToAST ex_ext [] (ex_node ''one'') init))
        in (\<exists>p2. r2 = Inr p2 \<and> promise_at s2 p2 = Some (Fulfilled (VDoc ''one'')))
           \<and> events s2 = events (init :: (hashed, string) state) @ [Load (source (ex_node ''one''))])"
proof -
  let ?n = "ex_node ''one''" and ?n' = "ex_node ''other''"
  let ?s = "init :: (hashed, string) state"
  have h1: "content ?n = content ?n'" and h2: "origin ?n = origin ?n'"
    and h3: "timestamp ?n = timestamp ?n'" and h0: "source ?n \<noteq> source ?n'"
    by (simp_all add: ex_node_def)
  have "fst (nodeToAST ex_ext [] ?n ?s) = Inr 0" by code_simp
  then have h4: "nodeToAST ex_ext [] ?n ?s = (Inr 0, snd (nodeToAST ex_ext [] ?n ?s))"
    by (simp add: prod_eq_iff)
  have "fst (nodeToHTML ex_ext [] ?n ?s) = 0" by code_simp
  then have h5: "nodeToHTML ex_ext [] ?n ?s = (0, snd (nodeToHTML ex_ext [] ?n ?s))"
    by (simp add: prod_eq_iff)
  have h6: "queue ?s = []" by (simp add: init_def)
  have h7: "\<not> truthy (cached_at (cacheKey ex_ext ?n ''html'') ?s)"
    and h8: "\<not> truthy (cached_at (cacheKey ex_ext ?n ''ast'') ?s)"
    by (simp_all add: init_def cached_at_def lru_get_def)
  have h9: "load ex_ext (source ?n) [] (dirname ex_ext (path ?n)) = Inr ''one''"
    by (simp add: ex_ext_def ex_node_def)
  have h10: "convert ex_ext ''one'' [] (dirname ex_ext (path ?n)) = Inr ''<p>one</p>''"
    by (simp add: ex_ext_def)
  note c = cacheKey_fields[OF h1 h2 h3 h4 h5, where k = "''html''"
      and opts' = "[(''backend'', ''docbook'')]" and d = "''one''" and html = "''<p>one</p>''"]
  note c1 = c[THEN conjunct1]
  note c4 = c[THEN conjunct2, THEN conjunct2, THEN conjunct2, THEN conjunct1, rule_format,
      OF conjI[OF h8 h9]]
  note c5 = c[THEN conjunct2, THEN conjunct2, THEN conjunct2, THEN conjunct2, rule_format,
      OF conjI[OF h6 conjI[OF h7 conjI[OF h8 conjI[OF h9 h10]]]]]
  show ?thesis
    by (intro conjI) (rule h1 h0 c1 c4 c5[THEN conjunct1] c5[THEN conjunct2])+
qed

section \<open>Cache reuse\<close>

text \<open>
  C4: when no job is queued, \<open>_nodeToHTML\<close> is called and its jobs have run, a further
  call of \<open>_nodeToHTML\<close> for the same node emits no parser and no converter call,
  queues no job, and returns a promise in the state of the promise of the first call.
\<close>

theorem cache_reuse:
  assumes "queue s = []"
    and "nodeToHTML E opts n s = (p1, s1)"
    and "nodeToHTML E opts n (run E s1) = (p2, s2)"
  shows "events s2 = events (run E s1) \<and> queue s2 = []
     \<and> promise_at s2 p2 = promise_at (run E s1) p1"
proof (cases "truthy (cached_at (cacheKey E n ''html'') s)")
  case True
  with assms(2) have "queue s1 = queue s"
    by (cases "cached_at (cacheKey E n ''html'') s") (auto simp: nodeToHTML_hit promise_resolve_def)
  with assms(1) have "run E s1 = s1" by (simp add: run_done)
  with nodeToHTML_again[OF assms(2) refl, of opts p2 s2] assms(3) \<open>queue s1 = queue s\<close> assms(1)
  show ?thesis by simp
next
  case False
  let ?k = "cacheKey E n ''html''"
  from nodeToHTML_miss[OF False assms(2)] have "cached_at ?k s1 = VProm p1" by simp
  moreover note run_after_nodeToHTML[OF assms(1,2)]
  ultimately have c: "cached_at ?k (run E s1) = VProm p1"
    by (simp add: cached_at_def)
  with assms(3) have "p2 = p1" "s2 = (run E s1)\<lparr>store := snd (lru_get ?k (store (run E s1)))\<rparr>"
    by (auto simp: nodeToHTML_hit promise_resolve_def)
  with \<open>queue (run E s1) = []\<close> show ?thesis by simp
qed

theorem cache_reuse_witness:
  "queue (init :: (hashed, string) state) = []
    \<and> events (snd (nodeToHTML ex_ext [] (ex_node ''one'')
          (run ex_ext (snd (nodeToHTML ex_ext [] (ex_node ''one'') init))))) = [Load ''one'', Convert]
    \<and> queue (snd (nodeToHTML ex_ext [] (ex_node ''one'')
          (run ex_ext (snd (nodeToHTML ex_ext [] (ex_node ''one'') init))))) = []
    \<and> promise_at (snd (nodeToHTML ex_ext [] (ex_node ''one'')
          (run ex_ext (snd (nodeToHTML ex_ext [] (ex_node ''one'') init))))) 0
        = Some (Fulfilled (VStr ''<p>one</p>''))"
proof -
  let ?n = "ex_node ''one''"
  let ?s1 = "snd (nodeToHTML ex_ext [] ?n init)"
  let ?t = "run ex_ext ?s1"
  have h1: "queue (init :: (hashed, string) state) = []" by (simp add: init_def)
  have "fst (nodeToHTML ex_ext [] ?n init) = 0" by code_simp
  then have h2: "nodeToHTML ex_ext [] ?n init = (0, ?s1)" by (simp add: prod_eq_iff)
  have "fst (nodeToHTML ex_ext [] ?n ?t) = 0" by code_simp
  then have h3: "nodeToHTML ex_ext [] ?n ?t = (0, snd (nodeToHTML ex_ext [] ?n ?t))"
    by (simp add: prod_eq_iff)
  have e: "events ?t = [Load ''one'', Convert]" by code_simp
  have p: "promise_at ?t 0 = Some (Fulfilled (VStr ''<p>one</p>''))" by code_simp
  from cache_reuse[OF h1 h2 h3] h1 e p show ?thesis by simp
qed

section \<open>Single flight\<close>

text \<open>
  C1, as the code has it. From a state with no queued job in which the node's \<open>html\<close>
  and \<open>ast\<close> fingerprints are not cached, with a parser and a converter that succeed:
  the second of two concurrent \<open>_nodeToHTML\<close> requests finds the pending promise the
  first one stored before returning, gets that same promise, calls nothing and queues
  nothing, and after all jobs have run the parser and the converter were called exactly
  once. The \<open>headings\<close> and \<open>timeToRead\<close> resolvers store only after their \<open>await\<close>:
  when the view is not cached and its fingerprint is not the \<open>ast\<close> fingerprint (for
  \<open>timeToRead\<close>: neither the \<open>ast\<close> nor the \<open>html\<close> fingerprint) of the node, the second
  of two concurrent requests misses as well, the two get two promises and the view is
  computed twice (the parser and the converter still run once).
\<close>

theorem single_flight:
  assumes "queue s = []"
    and "\<not> truthy (cached_at (cacheKey E n ''html'') s)"
    and "\<not> truthy (cached_at (cacheKey E n ''ast'') s)"
    and "load E (source n) opts (dirname E (path n)) = Inr d"
    and "convert E d opts (dirname E (path n)) = Inr html"
  shows "(let (p1, s1) = nodeToHTML E opts n s; (p2, s2) = nodeToHTML E opts n s1
          in cached_at (cacheKey E n ''html'') s1 = VProm p1
             \<and> promise_at s1 p1 = Some (Pending [])
             \<and> p2 = p1 \<and> events s2 = events s1 \<and> queue s2 = queue s1
             \<and> events (run E s2) = events s @ [Load (source n), Convert]
             \<and> promise_at (run E s2) p1 = Some (Fulfilled (VStr html)))
    \<and> (\<not> truthy (cached_at (cacheKey E n ''headings'') s)
         \<and> cacheKey E n ''headings'' \<noteq> cacheKey E n ''ast'' \<longrightarrow>
        (let (p1, s1) = headings_resolve E opts n da st s;
             (p2, s2) = headings_resolve E opts n da st s1
         in \<not> truthy (cached_at (cacheKey E n ''headings'') s1) \<and> p2 \<noteq> p1
            \<and> events (run E s2)
                = events s @ [Load (source n), HeadingsComputed, HeadingsComputed]))
    \<and> (\<not> truthy (cached_at (cacheKey E n ''timeToRead'') s)
         \<and> cacheKey E n ''timeToRead'' \<noteq> cacheKey E n ''ast''
         \<and> cacheKey E n ''timeToRead'' \<noteq> cacheKey E n ''html''
         \<and> sanitizeHTML E (VStr html) = Inr plain \<longrightarrow>
        (let (p1, s1) = timeToRead_resolve E opts n speed s;
             (p2, s2) = timeToRead_resolve E opts n speed s1
         in \<not> truthy (cached_at (cacheKey E n ''timeToRead'') s1) \<and> p2 \<noteq> p1
            \<and> events (run E s2)
                = events s @ [Load (source n), Convert, TimeComputed, TimeComputed]))"
proof -
  obtain p1 s1 p2 s2 where h: "nodeToHTML E opts n s = (p1, s1)" "nodeToHTML E opts n s1 = (p2, s2)"
    by (cases "nodeToHTML E opts n s", cases "nodeToHTML E opts n (snd (nodeToHTML E opts n s))") auto
  obtain q1 t1 q2 t2 where hh: "headings_resolve E opts n da st s = (q1, t1)"
      "headings_resolve E opts n da st t1 = (q2, t2)"
    by (cases "headings_resolve E opts n da st s",
        cases "headings_resolve E opts n da st (snd (headings_resolve E opts n da st s))") auto
  obtain r1 u1 r2 u2 where ht: "timeToRead_resolve E opts n speed s = (r1, u1)"
      "timeToRead_resolve E opts n speed u1 = (r2, u2)"
    by (cases "timeToRead_resolve E opts n speed s",
        cases "timeToRead_resolve E opts n speed (snd (timeToRead_resolve E opts n speed s))") auto
  have 1: "cached_at (cacheKey E n ''html'') s1 = VProm p1
      \<and> promise_at s1 p1 = Some (Pending [])
      \<and> p2 = p1 \<and> events s2 = events s1 \<and> queue s2 = queue s1
      \<and> events (run E s2) = events s @ [Load (source n), Convert]
      \<and> promise_at (run E s2) p1 = Some (Fulfilled (VStr html))"
    using html_once[OF assms(1,2,3,4,5) h(1) refl h(2)] nodeToHTML_again[OF h(1) refl h(2)]
    by simp
  have 2: "\<not> truthy (cached_at (cacheKey E n ''headings'') t1) \<and> q2 \<noteq> q1
      \<and> events (run E t2) = events s @ [Load (source n), HeadingsComputed, HeadingsComputed]"
    if "\<not> truthy (cached_at (cacheKey E n ''headings'') s)"
      "cacheKey E n ''headings'' \<noteq> cacheKey E n ''ast''"
    using headings_twice[OF assms(1) that(1) assms(3) that(2) assms(4) hh] by simp
  have 3: "\<not> truthy (cached_at (cacheKey E n ''timeToRead'') u1) \<and> r2 \<noteq> r1
      \<and> events (run E u2) = events s @ [Load (source n), Convert, TimeComputed, TimeComputed]"
    if "\<not> truthy (cached_at (cacheKey E n ''timeToRead'') s)"
      "cacheKey E n ''timeToRead'' \<noteq> cacheKey E n ''ast''"
      "cacheKey E n ''timeToRead'' \<noteq> cacheKey E n ''html''"
      "sanitizeHTML E (VStr html) = Inr plain"
    using timeToRead_twice[OF assms(1) that(1) assms(2,3) that(3,2) assms(4,5) that(4) ht] by simp
  show ?thesis
    using 1 2 3 by (simp add: h hh ht)
qed

theorem single_flight_witness:
  "queue (init :: (hashed, string) state) = []
    \<and> cacheKey ex_ext (ex_node ''one two'') ''headings'' \<noteq> cacheKey ex_ext (ex_node ''one two'') ''ast''
    \<and> load ex_ext (source (ex_node ''one two'')) [] (dirname ex_ext (path (ex_node ''one two'')))
        = Inr ''one two''
    \<and> (let (p1, s1) = nodeToHTML ex_ext [] (ex_node ''one two'') init;
            (p2, s2) = nodeToHTML ex_ext [] (ex_node ''one two'') s1
        in cached_at (cacheKey ex_ext (ex_node ''one two'') ''html'') s1 = VProm p1
           \<and> promise_at s1 p1 = Some (Pending [])
           \<and> p2 = p1 \<and> events s2 = events s1 \<and> queue s2 = queue s1
           \<and> events (run ex_ext s2)
               = events (init :: (hashed, string) state) @ [Load (source (ex_node ''one two'')), Convert]
           \<and> promise_at (run ex_ext s2) p1 = Some (Fulfilled (VStr ''<p>one two</p>'')))
    \<and> (let (p1, s1) = headings_resolve ex_ext [] (ex_node ''one two'') None True init;
            (p2, s2) = headings_resolve ex_ext [] (ex_node ''one two'') None True s1
        in \<not> truthy (cached_at (cacheKey ex_ext (ex_node ''one two'') ''headings'') s1) \<and> p2 \<noteq> p1
           \<and> events (run ex_ext s2)
               = events (init :: (hashed, string) state)
                 @ [Load (source (ex_node ''one two'')), HeadingsComputed, HeadingsComputed])
    \<and> (let (p1, s1) = timeToRead_resolve ex_ext [] (ex_node ''one two'') 230 init;
            (p2, s2) = timeToRead_resolve ex_ext [] (ex_node ''one two'') 230 s1
        in \<not> truthy (cached_at (cacheKey ex_ext (ex_node ''one two'') ''timeToRead'') s1) \<and> p2 \<noteq> p1
           \<and> events (run ex_ext s2)
               = events (init :: (hashed, string) state)
                 @ [Load (source (ex_node ''one two'')), Convert, TimeComputed, TimeComputed])"
proof -
  let ?n = "ex_node ''one two''"
  let ?s = "init :: (hashed, string) state"
  have h1: "queue ?s = []" by (simp add: init_def)
  have h2: "\<not> truthy (cached_at (cacheKey ex_ext ?n ''html'') ?s)"
    and h3: "\<not> truthy (cached_at (cacheKey ex_ext ?n ''ast'') ?s)"
    and h4: "\<not> truthy (cached_at (cacheKey ex_ext ?n ''headings'') ?s)"
    and h5: "\<not> truthy (cached_at (cacheKey ex_ext ?n ''timeToRead'') ?s)"
    by (simp_all add: init_def cached_at_def lru_get_def)
  have h6: "cacheKey ex_ext ?n ''headings'' \<noteq> cacheKey ex_ext ?n ''ast''"
    and h7: "cacheKey ex_ext ?n ''timeToRead'' \<noteq> cacheKey ex_ext ?n ''ast''"
    and h8: "cacheKey ex_ext ?n ''timeToRead'' \<noteq> cacheKey ex_ext ?n ''html''"
    by (simp_all add: cacheKey_def ex_ext_def)
  have h9: "load ex_ext (source ?n) [] (dirname ex_ext (path ?n)) = Inr ''one two''"
    by (simp add: ex_ext_def ex_node_def)
  have h10: "convert ex_ext ''one two'' [] (dirname ex_ext (path ?n)) = Inr ''<p>one two</p>''"
    by (simp add: ex_ext_def)
  have h11: "sanitizeHTML ex_ext (VStr ''<p>one two</p>'') = Inr ''one two''"
    by (simp add: ex_ext_def)
  note c = single_flight[OF h1 h2 h3 h9 h10, where da = None and st = True and speed = 230
      and plain = "''one two''"]
  note c1 = c[THEN conjunct1]
  note c2 = c[THEN conjunct2, THEN conjunct1, rule_format, OF conjI[OF h4 h6]]
  note c3 = c[THEN conjunct2, THEN conjunct2, rule_format, OF conjI[OF h5 conjI[OF h7 conjI[OF h8 h11]]]]
  show ?thesis
    by (intro conjI) (rule h1 h6 h9 c1 c2 c3)+
qed

text \<open>
  C1 as stated fails for the view resolvers: two concurrent \<open>headings\<close> requests for
  one node compute the outline twice.
\<close>

theorem headings_computed_twice:
  "events (run ex_ext (snd (headings_resolve ex_ext [] (ex_node ''two'') None True
       (snd (headings_resolve ex_ext [] (ex_node ''two'') None True init)))))
     = [Load ''two'', HeadingsComputed, HeadingsComputed]"
  by code_simp

section \<open>View parameters\<close>

lemma timeToRead_cold:
  assumes "queue s = []"
    and "\<not> truthy (cached_at (cacheKey E n ''timeToRead'') s)"
    and "\<not> truthy (cached_at (cacheKey E n ''html'') s)"
    and "\<not> truthy (cached_at (cacheKey E n ''ast'') s)"
    and "load E (source n) opts (dirname E (path n)) = Inr d"
    and "convert E d opts (dirname E (path n)) = Inr html"
    and "sanitizeHTML E (VStr html) = Inr text"
    and "timeToRead_resolve E opts n speed s = (p1, s1)"
  shows "queue (run E s1) = []"
    and "events (run E s1) = events s @ [Load (source n), Convert, TimeComputed]"
    and "promise_at (run E s1) p1 = Some (Fulfilled (VNum (reading_time (length (words E text)) speed)))"
    and "cached_at (cacheKey E n ''timeToRead'') (run E s1)
           = VNum (reading_time (length (words E text)) speed)"
proof -
  let ?kt = "cacheKey E n ''timeToRead''" and ?kh = "cacheKey E n ''html''"
  let ?ka = "cacheKey E n ''ast''"
  let ?p = "length (heap s)"
  let ?K1 = "KTime ?p ?kt speed"
  let ?T = "Resume (KHtml (Suc ?p) n opts) (Inr (VDoc d)) :: ('a, 'b) task"
  let ?u = "emit (Load (source n))
      (s\<lparr>store := snd (lru_get ?ka (snd (lru_get ?kh (snd (lru_get ?kt (store s)))))),
          heap := heap s @ [Pending [], Pending [?K1], Fulfilled (VDoc d)],
          queue := [?T]\<rparr>)"
  have s1: "p1 = ?p" "s1 = cache_set ?kh (VProm (Suc ?p)) (cache_set ?ka (VDoc d) ?u)"
    using assms(1-5,8)
    by (auto simp: timeToRead_resolve_def nodeToHTML_def nodeToAST_def cache_get_eq new_promise_def
        promise_resolve_def await_def subscribe_def enqueue_def promise_at_def cache_set_def emit_def
        Let_def nth_append list_update_append cached_norm)
  have pa: "promise_at s1 ?p = Some (Pending [])" "promise_at s1 (Suc ?p) = Some (Pending [?K1])"
    and q1: "queue s1 = [?T]" and e1: "events s1 = events s @ [Load (source n)]"
    unfolding s1 by (simp_all add: promise_at_def nth_append cache_set_def emit_def)
  let ?h = "Inr (VStr html) :: err + 'b val"
  define t1 where "t1 = settle (Suc ?p) ?h (emit Convert (s1\<lparr>queue := []\<rparr>))"
  have r1: "run E s1 = run E t1"
    unfolding t1_def using assms(6) by (subst run_Cons[OF q1]) (simp add: resolve_def)
  have t1: "queue t1 = [Resume ?K1 ?h]"
    "events t1 = events s @ [Load (source n), Convert]"
    "promise_at t1 ?p = Some (Pending [])"
    unfolding t1_def using pa e1 by (simp_all add: settle_Pending)
  let ?m1 = "VNum (reading_time (length (words E text)) speed) :: 'b val"
  define t2 where "t2 = settle ?p (Inr ?m1) (cache_set ?kt ?m1 (emit TimeComputed (t1\<lparr>queue := []\<rparr>)))"
  have r2: "run E t1 = run E t2"
    unfolding t2_def using assms(7) by (subst run_Cons[OF t1(1)]) (simp add: resolve_def Let_def)
  have t2: "queue t2 = []"
    "events t2 = events s @ [Load (source n), Convert, TimeComputed]"
    "promise_at t2 ?p = Some (Fulfilled ?m1)"
    "cached_at ?kt t2 = ?m1"
    unfolding t2_def using t1 by (simp_all add: settle_Pending)
  have r3: "run E t2 = t2" using t2(1) by (rule run_done)
  show "queue (run E s1) = []"
    and "events (run E s1) = events s @ [Load (source n), Convert, TimeComputed]"
    and "promise_at (run E s1) p1 = Some (Fulfilled ?m1)"
    and "cached_at ?kt (run E s1) = ?m1"
    using t2 by (simp_all add: r1 r2 r3 s1(1))
qed

lemma headings_cold:
  assumes "queue s = []"
    and "\<not> truthy (cached_at (cacheKey E n ''headings'') s)"
    and "\<not> truthy (cached_at (cacheKey E n ''ast'') s)"
    and "load E (source n) opts (dirname E (path n)) = Inr d"
    and "headings_resolve E opts n da st s = (p1, s1)"
  shows "queue (run E s1) = []"
    and "events (run E s1) = events s @ [Load (source n), HeadingsComputed]"
    and "promise_at (run E s1) p1 = Some (Fulfilled (VArr (map to_heading (getRefs E d))))"
    and "cached_at (cacheKey E n ''headings'') (run E s1) = VArr (map to_heading (getRefs E d))"
proof -
  let ?kh = "cacheKey E n ''headings''" and ?ka = "cacheKey E n ''ast''"
  let ?p = "length (heap s)"
  let ?hs = "VArr (map to_heading (getRefs E d)) :: 'b val"
  let ?T = "Resume (KHeadings ?p ?kh) (Inr (VDoc d)) :: ('a, 'b) task"
  let ?u = "emit (Load (source n))
      (s\<lparr>store := snd (lru_get ?ka (snd (lru_get ?kh (store s)))),
          heap := heap s @ [Pending [], Fulfilled (VDoc d)],
          queue := [?T]\<rparr>)"
  have s1: "p1 = ?p" "s1 = cache_set ?ka (VDoc d) ?u"
    using assms
    by (auto simp: headings_resolve_def nodeToAST_def cache_get_eq new_promise_def promise_resolve_def
        await_def subscribe_def enqueue_def promise_at_def cache_set_def emit_def Let_def nth_append
        cached_norm)
  have pa: "promise_at s1 ?p = Some (Pending [])"
    and q1: "queue s1 = [?T]" and e1: "events s1 = events s @ [Load (source n)]"
    unfolding s1 by (simp_all add: promise_at_def nth_append cache_set_def emit_def)
  define t1 where "t1 = settle ?p (Inr ?hs) (cache_set ?kh ?hs (emit HeadingsComputed (s1\<lparr>queue := []\<rparr>)))"
  have r1: "run E s1 = run E t1"
    unfolding t1_def by (subst run_Cons[OF q1]) (simp add: resolve_def Let_def)
  have t1: "queue t1 = []"
    "events t1 = events s @ [Load (source n), HeadingsComputed]"
    "promise_at t1 ?p = Some (Fulfilled ?hs)"
    "cached_at ?kh t1 = ?hs"
    unfolding t1_def using pa e1 by (simp_all add: settle_Pending)
  have r2: "run E t1 = t1" using t1(1) by (rule run_done)
  show "queue (run E s1) = []"
    and "events (run E s1) = events s @ [Load (source n), HeadingsComputed]"
    and "promise_at (run E s1) p1 = Some (Fulfilled ?hs)"
    and "cached_at ?kh (run E s1) = ?hs"
    using t1 by (simp_all add: r1 r2 s1(1))
qed

lemma view_hit_fulfilled:
  assumes "cached_at k s = VNum m \<or> cached_at k s = VArr hs" and "truthy (cached_at k s)"
  shows "promise_at (resolve (length (heap s)) (cached_at k s)
            (s\<lparr>heap := heap s @ [Pending []], store := snd (lru_get k (store s))\<rparr>)) (length (heap s))
          = Some (Fulfilled (cached_at k s))"
  using assms by (auto simp: resolve_def settle_fresh)

lemma view_hit_quiet:
  assumes "cached_at k s = VNum m \<or> cached_at k s = VArr hs"
  shows "queue (resolve (length (heap s)) (cached_at k s)
            (s\<lparr>heap := heap s @ [Pending []], store := snd (lru_get k (store s))\<rparr>)) = queue s"
    and "events (resolve (length (heap s)) (cached_at k s)
            (s\<lparr>heap := heap s @ [Pending []], store := snd (lru_get k (store s))\<rparr>)) = events s"
  using assms by (auto simp: resolve_def settle_def promise_at_def)

lemma headings_hit_array:
  assumes "cached_at (cacheKey E n ''headings'') s = VArr hs"
    and "headings_resolve E opts n da st s = (p, s')"
  shows "promise_at s' p = Some (Fulfilled (VArr hs))" and "events s' = events s"
    and "cached_at (cacheKey E n ''headings'') s' = VArr hs" and "queue s' = queue s"
proof -
  let ?k = "cacheKey E n ''headings''"
  have t: "truthy (cached_at ?k s)" using assms(1) by simp
  from assms(2) have p: "p = length (heap s)"
    and s': "s' = resolve (length (heap s)) (cached_at ?k s)
        (s\<lparr>heap := heap s @ [Pending []], store := snd (lru_get ?k (store s))\<rparr>)"
    by (auto simp: headings_hit[OF t])
  show "promise_at s' p = Some (Fulfilled (VArr hs))"
    unfolding p s' using view_hit_fulfilled[OF disjI2[OF assms(1)] t] assms(1) by simp
  show "events s' = events s"
    unfolding s' by (rule view_hit_quiet(2)[OF disjI2[OF assms(1)]])
  show "cached_at ?k s' = VArr hs"
    unfolding s' using assms(1) by (simp add: cached_norm)
  show "queue s' = queue s"
    unfolding s' by (rule view_hit_quiet(1)[OF disjI2[OF assms(1)]])
qed

lemma timeToRead_hit_number:
  assumes "cached_at (cacheKey E n ''timeToRead'') s = VNum m" and "num_truthy m"
    and "timeToRead_resolve E opts n speed s = (p, s')"
  shows "promise_at s' p = Some (Fulfilled (VNum m))" and "events s' = events s"
    and "cached_at (cacheKey E n ''timeToRead'') s' = VNum m" and "queue s' = queue s"
proof -
  let ?k = "cacheKey E n ''timeToRead''"
  have t: "truthy (cached_at ?k s)" using assms(1,2) by simp
  from assms(3) have p: "p = length (heap s)"
    and s': "s' = resolve (length (heap s)) (cached_at ?k s)
        (s\<lparr>heap := heap s @ [Pending []], store := snd (lru_get ?k (store s))\<rparr>)"
    by (auto simp: timeToRead_hit[OF t])
  show "promise_at s' p = Some (Fulfilled (VNum m))"
    unfolding p s' using view_hit_fulfilled[OF disjI1[OF assms(1)] t] assms(1) by simp
  show "events s' = events s"
    unfolding s' by (rule view_hit_quiet(2)[OF disjI1[OF assms(1)]])
  show "cached_at ?k s' = VNum m"
    unfolding s' using assms(1) by (simp add: cached_norm)
  show "queue s' = queue s"
    unfolding s' by (rule view_hit_quiet(1)[OF disjI1[OF assms(1)]])
qed

text \<open>
  C3: from a state with no queued job and none of the node's fingerprints cached, a
  first \<open>timeToRead\<close> call with \<open>speed\<close> runs to its end and is fulfilled with the
  reading time for \<open>speed\<close>; a second call with any \<open>speed'\<close> is fulfilled at once with
  that same number, computes nothing and queues nothing. Likewise a second \<open>headings\<close>
  call with other \<open>depth\<close> and \<open>stripTags\<close> gets the outline the first call stored.
  In any state \<open>u\<close>, a number cached under the \<open>timeToRead\<close> fingerprint and an array
  cached under the \<open>headings\<close> fingerprint is what a call returns, whatever its
  arguments, and stays cached.
\<close>

theorem view_parameters_not_in_key:
  assumes "queue s = []"
    and "\<not> truthy (cached_at (cacheKey E n ''timeToRead'') s)"
    and "\<not> truthy (cached_at (cacheKey E n ''headings'') s)"
    and "\<not> truthy (cached_at (cacheKey E n ''html'') s)"
    and "\<not> truthy (cached_at (cacheKey E n ''ast'') s)"
    and "load E (source n) opts (dirname E (path n)) = Inr d"
    and "convert E d opts (dirname E (path n)) = Inr html"
    and "sanitizeHTML E (VStr html) = Inr text"
  shows "(let (p1, s1) = timeToRead_resolve E opts n speed s;
             t = run E s1;
             (p2, s2) = timeToRead_resolve E opts n speed' t
         in promise_at t p1 = Some (Fulfilled (VNum (reading_time (length (words E text)) speed)))
            \<and> promise_at s2 p2 = Some (Fulfilled (VNum (reading_time (length (words E text)) speed)))
            \<and> events s2 = events t \<and> queue s2 = [])
    \<and> (let (p1, s1) = headings_resolve E opts n da st s;
            t = run E s1;
            (p2, s2) = headings_resolve E opts n da' st' t
        in promise_at t p1 = Some (Fulfilled (VArr (map to_heading (getRefs E d))))
           \<and> promise_at s2 p2 = Some (Fulfilled (VArr (map to_heading (getRefs E d))))
           \<and> events s2 = events t \<and> queue s2 = [])
    \<and> (cached_at (cacheKey E n ''timeToRead'') u = VNum m \<and> num_truthy m \<longrightarrow>
        (let (p, u') = timeToRead_resolve E opts' n speed' u
         in promise_at u' p = Some (Fulfilled (VNum m)) \<and> events u' = events u
            \<and> queue u' = queue u \<and> cached_at (cacheKey E n ''timeToRead'') u' = VNum m))
    \<and> (cached_at (cacheKey E n ''headings'') u = VArr hs \<longrightarrow>
        (let (p, u') = headings_resolve E opts' n da' st' u
         in promise_at u' p = Some (Fulfilled (VArr hs)) \<and> events u' = events u
            \<and> queue u' = queue u \<and> cached_at (cacheKey E n ''headings'') u' = VArr hs))"
proof -
  obtain p1 s1 where a: "timeToRead_resolve E opts n speed s = (p1, s1)"
    by (cases "timeToRead_resolve E opts n speed s")
  note c = timeToRead_cold[OF assms(1,2,4,5,6,7,8) a]
  let ?t = "run E s1"
  have tt: "truthy (cached_at (cacheKey E n ''timeToRead'') ?t)" by (simp add: c(4))
  have 1: "promise_at (snd (timeToRead_resolve E opts n speed' ?t)) (fst (timeToRead_resolve E opts n speed' ?t))
        = Some (Fulfilled (VNum (reading_time (length (words E text)) speed)))
      \<and> events (snd (timeToRead_resolve E opts n speed' ?t)) = events ?t
      \<and> queue (snd (timeToRead_resolve E opts n speed' ?t)) = []"
    using view_hit_fulfilled[OF disjI1[OF c(4)] tt] view_hit_quiet[OF disjI1[OF c(4)]] c(1)
    by (simp add: timeToRead_hit[OF tt] c(4))
  obtain q1 u1 where b: "headings_resolve E opts n da st s = (q1, u1)"
    by (cases "headings_resolve E opts n da st s")
  note h = headings_cold[OF assms(1,3,5,6) b]
  let ?u = "run E u1"
  have th: "truthy (cached_at (cacheKey E n ''headings'') ?u)" by (simp add: h(4))
  have 2: "promise_at (snd (headings_resolve E opts n da' st' ?u)) (fst (headings_resolve E opts n da' st' ?u))
        = Some (Fulfilled (VArr (map to_heading (getRefs E d))))
      \<and> events (snd (headings_resolve E opts n da' st' ?u)) = events ?u
      \<and> queue (snd (headings_resolve E opts n da' st' ?u)) = []"
    using view_hit_fulfilled[OF disjI2[OF h(4)] th] view_hit_quiet[OF disjI2[OF h(4)]] h(1)
    by (simp add: headings_hit[OF th] h(4))
  obtain p3 u3 where e: "timeToRead_resolve E opts' n speed' u = (p3, u3)"
    by (cases "timeToRead_resolve E opts' n speed' u")
  obtain p4 u4 where f: "headings_resolve E opts' n da' st' u = (p4, u4)"
    by (cases "headings_resolve E opts' n da' st' u")
  have 3: "promise_at u3 p3 = Some (Fulfilled (VNum m)) \<and> events u3 = events u
      \<and> queue u3 = queue u \<and> cached_at (cacheKey E n ''timeToRead'') u3 = VNum m"
    if "cached_at (cacheKey E n ''timeToRead'') u = VNum m" "num_truthy m"
    using timeToRead_hit_number[OF that e] by simp
  have 4: "promise_at u4 p4 = Some (Fulfilled (VArr hs)) \<and> events u4 = events u
      \<and> queue u4 = queue u \<and> cached_at (cacheKey E n ''headings'') u4 = VArr hs"
    if "cached_at (cacheKey E n ''headings'') u = VArr hs"
    using headings_hit_array[OF that f] by simp
  show ?thesis
    using 1 2 3 4 c(3) h(3) by (simp add: a b e f case_prod_beta)
qed


theorem view_parameters_not_in_key_witness:
  "queue (init :: (hashed, string) state) = []
    \<and> sanitizeHTML ex_ext (VStr ''<p>a b c d e f g h i j</p>'') = Inr ''a b c d e f g h i j''
    \<and> reading_time (length (words ex_ext ''a b c d e f g h i j'')) 2 = Num 5
    \<and> reading_time (length (words ex_ext ''a b c d e f g h i j'')) 5 = Num 2
    \<and> (let (p1, s1) = timeToRead_resolve ex_ext [] (ex_node ''a b c d e f g h i j'') 2 init;
            t = run ex_ext s1;
            (p2, s2) = timeToRead_resolve ex_ext [] (ex_node ''a b c d e f g h i j'') 5 t
        in promise_at t p1
             = Some (Fulfilled (VNum (reading_time (length (words ex_ext ''a b c d e f g h i j'')) 2)))
           \<and> promise_at s2 p2
             = Some (Fulfilled (VNum (reading_time (length (words ex_ext ''a b c d e f g h i j'')) 2)))
           \<and> events s2 = events t \<and> queue s2 = [])"
proof -
  let ?n = "ex_node ''a b c d e f g h i j''"
  let ?s = "init :: (hashed, string) state"
  have h1: "queue ?s = []" by (simp add: init_def)
  have h2: "\<not> truthy (cached_at (cacheKey ex_ext ?n ''timeToRead'') ?s)"
    and h3: "\<not> truthy (cached_at (cacheKey ex_ext ?n ''headings'') ?s)"
    and h4: "\<not> truthy (cached_at (cacheKey ex_ext ?n ''html'') ?s)"
    and h5: "\<not> truthy (cached_at (cacheKey ex_ext ?n ''ast'') ?s)"
    by (simp_all add: init_def cached_at_def lru_get_def)
  have h6: "load ex_ext (source ?n) [] (dirname ex_ext (path ?n)) = Inr ''a b c d e f g h i j''"
    by (simp add: ex_ext_def ex_node_def)
  have h7: "convert ex_ext ''a b c d e f g h i j'' [] (dirname ex_ext (path ?n))
      = Inr ''<p>a b c d e f g h i j</p>''"
    by (simp add: ex_ext_def)
  have h8: "sanitizeHTML ex_ext (VStr ''<p>a b c d e f g h i j</p>'') = Inr ''a b c d e f g h i j''"
    by (simp add: ex_ext_def)
  have r1: "reading_time (length (words ex_ext ''a b c d e f g h i j'')) 2 = Num 5"
    and r2: "reading_time (length (words ex_ext ''a b c d e f g h i j'')) 5 = Num 2"
    by code_simp+
  note c = view_parameters_not_in_key[OF h1 h2 h3 h4 h5 h6 h7 h8, where speed = 2 and speed' = 5
      and opts' = "[]" and da = None and st = True and da' = None and st' = True]
  from c have c1: "let (p1, s1) = timeToRead_resolve ex_ext [] ?n 2 ?s;
            t = run ex_ext s1;
            (p2, s2) = timeToRead_resolve ex_ext [] ?n 5 t
        in promise_at t p1
             = Some (Fulfilled (VNum (reading_time (length (words ex_ext ''a b c d e f g h i j'')) 2)))
           \<and> promise_at s2 p2
             = Some (Fulfilled (VNum (reading_time (length (words ex_ext ''a b c d e f g h i j'')) 2)))
           \<and> events s2 = events t \<and> queue s2 = []"
    by (rule conjunct1)
  show ?thesis
    by (intro conjI) (rule h1 h8 r1 r2 c1)+
qed

section \<open>The arguments of the headings field\<close>

text \<open>
  C6: the resolver copies \<open>level\<close>, \<open>title\<close> and \<open>id\<close> of every entry of
  \<open>ast.getRefs()\<close> in order, and never looks at \<open>depth\<close> and \<open>stripTags\<close>. For a document
  whose sections have the levels 1 and 2 and whose first title carries markup, a request
  with \<open>depth = 1\<close> and the default \<open>stripTags = true\<close> is fulfilled with both entries,
  the markup still in the first.
\<close>

theorem headings_arguments_ignored:
  "promise_at (run ex_ext (snd (headings_field ex_ext [] (ex_node ''two'') (Some 1) None init))) 0
     = Some (Fulfilled (VArr [\<lparr>depth = 1, heading_value = ''<b>A</b>'', anchor = ''_a''\<rparr>,
                              \<lparr>depth = 2, heading_value = ''B'', anchor = ''_b''\<rparr>]))"
  by code_simp

section \<open>Reading time\<close>

lemma at_least_one_pos: "0 < speed \<Longrightarrow> at_least_one (reading_time c speed)"
  by (simp add: reading_time_pos at_least_one_def)

text \<open>
  C5, as the code has it. From a state with no queued job and none of the node's
  fingerprints cached, \<open>timeToRead\<close> is fulfilled with, and caches,
  \<open>Math.round(count / speed) || 1\<close> for the number \<open>count\<close> of words of the sanitized
  rendered output. For a positive \<open>speed\<close> this is the greater of 1 and the quotient
  rounded to the nearest integer, so at least 1; whenever the quotient rounds to 0 it is
  exactly 1; a rounded quotient other than 0 is the result as it is, also when it is
  negative. \<open>speed\<close> is 230 when the argument is not supplied. In any state \<open>u\<close>, the
  rest of the resolver after its \<open>await\<close> fulfils and caches that number for the
  rendered output \<open>h\<close> it received.
\<close>

theorem reading_time_on_miss:
  assumes "queue s = []"
    and "\<not> truthy (cached_at (cacheKey E n ''timeToRead'') s)"
    and "\<not> truthy (cached_at (cacheKey E n ''html'') s)"
    and "\<not> truthy (cached_at (cacheKey E n ''ast'') s)"
    and "load E (source n) opts (dirname E (path n)) = Inr d"
    and "convert E d opts (dirname E (path n)) = Inr html"
    and "sanitizeHTML E (VStr html) = Inr text"
  shows "(let (p, s1) = timeToRead_resolve E opts n speed s; t = run E s1
         in promise_at t p = Some (Fulfilled (VNum (reading_time (length (words E text)) speed)))
            \<and> cached_at (cacheKey E n ''timeToRead'') t
                = VNum (reading_time (length (words E text)) speed))
    \<and> (0 < speed \<longrightarrow>
          reading_time c speed = Num (of_int (max 1 (round (of_nat c / of_int speed :: rat))))
          \<and> at_least_one (reading_time c speed))
    \<and> (speed \<noteq> 0 \<longrightarrow> round (of_nat c / of_int speed :: rat) = 0 \<longrightarrow> reading_time c speed = Num 1)
    \<and> (speed \<noteq> 0 \<longrightarrow> round (of_nat c / of_int speed :: rat) \<noteq> 0 \<longrightarrow>
          reading_time c speed = Num (of_int (round (of_nat c / of_int speed :: rat))))
    \<and> timeToRead_field E opts n None s = timeToRead_resolve E opts n 230 s
    \<and> (promise_at u q = Some (Pending ks) \<and> sanitizeHTML E h = Inr tx \<longrightarrow>
        (let t = resume E (KTime q key speed) (Inr h) u
         in promise_at t q = Some (Fulfilled (VNum (reading_time (length (words E tx)) speed)))
            \<and> cached_at key t = VNum (reading_time (length (words E tx)) speed)))"
proof -
  obtain p s1 where a: "timeToRead_resolve E opts n speed s = (p, s1)"
    by (cases "timeToRead_resolve E opts n speed s")
  note c = timeToRead_cold[OF assms a]
  have r: "promise_at (resume E (KTime q key speed) (Inr h) u) q
        = Some (Fulfilled (VNum (reading_time (length (words E tx)) speed)))
      \<and> cached_at key (resume E (KTime q key speed) (Inr h) u)
        = VNum (reading_time (length (words E tx)) speed)"
    if "promise_at u q = Some (Pending ks)" "sanitizeHTML E h = Inr tx"
    using that by (simp add: Let_def resolve_def settle_Pending)
  show ?thesis
    using c(3,4) r reading_time_pos[of speed c] at_least_one_pos[of speed c]
      reading_time_zero[of speed c] reading_time_nonzero[of speed c]
    by (simp add: a timeToRead_field_def Let_def)
qed

theorem reading_time_on_miss_witness:
  "queue (init :: (hashed, string) state) = []
    \<and> sanitizeHTML ex_ext (VStr ''<p>Hello world.</p>'') = Inr ''Hello world.''
    \<and> (let (p, s1) = timeToRead_resolve ex_ext [] (ex_node ''Hello world.'') 230 init; t = run ex_ext s1
        in promise_at t p
             = Some (Fulfilled (VNum (reading_time (length (words ex_ext ''Hello world.'')) 230)))
           \<and> cached_at (cacheKey ex_ext (ex_node ''Hello world.'') ''timeToRead'') t
               = VNum (reading_time (length (words ex_ext ''Hello world.'')) 230))
    \<and> round (of_nat 2 / of_int 230 :: rat) = 0
    \<and> reading_time 2 230 = Num 1
    \<and> at_least_one (reading_time 2 230)"
proof -
  let ?n = "ex_node ''Hello world.''"
  let ?s = "init :: (hashed, string) state"
  have h1: "queue ?s = []" by (simp add: init_def)
  have h2: "\<not> truthy (cached_at (cacheKey ex_ext ?n ''timeToRead'') ?s)"
    and h3: "\<not> truthy (cached_at (cacheKey ex_ext ?n ''html'') ?s)"
    and h4: "\<not> truthy (cached_at (cacheKey ex_ext ?n ''ast'') ?s)"
    by (simp_all add: init_def cached_at_def lru_get_def)
  have h5: "load ex_ext (source ?n) [] (dirname ex_ext (path ?n)) = Inr ''Hello world.''"
    by (simp add: ex_ext_def ex_node_def)
  have h6: "convert ex_ext ''Hello world.'' [] (dirname ex_ext (path ?n)) = Inr ''<p>Hello world.</p>''"
    by (simp add: ex_ext_def)
  have h7: "sanitizeHTML ex_ext (VStr ''<p>Hello world.</p>'') = Inr ''Hello world.''"
    by (simp add: ex_ext_def)
  have h8: "round (of_nat 2 / of_int 230 :: rat) = 0" by code_simp
  note c = reading_time_on_miss[OF h1 h2 h3 h4 h5 h6 h7, where speed = 230 and c = 2]
  from c have c1: "let (p, s1) = timeToRead_resolve ex_ext [] ?n 230 ?s; t = run ex_ext s1
        in promise_at t p
             = Some (Fulfilled (VNum (reading_time (length (words ex_ext ''Hello world.'')) 230)))
           \<and> cached_at (cacheKey ex_ext ?n ''timeToRead'') t
               = VNum (reading_time (length (words ex_ext ''Hello world.'')) 230)"
    by (rule conjunct1)
  have c2: "reading_time 2 230 = Num 1"
    by (rule c[THEN conjunct2, THEN conjunct2, THEN conjunct1, rule_format, OF _ h8]) simp
  have c3: "at_least_one (reading_time 2 230)"
    by (rule c[THEN conjunct2, THEN conjunct1, rule_format, THEN conjunct2]) simp
  show ?thesis
    by (intro conjI) (rule h1 h7 h8 c1 c2 c3)+
qed

text \<open>
  C5 as stated fails for a negative \<open>speed\<close>: ten words at \<open>speed = -1\<close> give \<open>-10\<close>,
  which is not at least 1.
\<close>

theorem reading_time_negative_speed:
  "promise_at (run ex_ext (snd (timeToRead_resolve ex_ext [] (ex_node ''a b c d e f g h i j'') (- 1) init))) 0
     = Some (Fulfilled (VNum (Num (- 10))))
   \<and> \<not> at_least_one (Num (- 10))"
  by code_simp

section \<open>Failures\<close>

lemma ast_fail:
  assumes "\<not> truthy (cached_at (cacheKey E n ''ast'') s)"
    and "load E (source n) opts (dirname E (path n)) = Inl e"
  shows "nodeToAST E opts n s
      = (Inl e, emit (Load (source n)) (s\<lparr>store := snd (lru_get (cacheKey E n ''ast'') (store s))\<rparr>))"
  using assms by (simp add: nodeToAST_def cache_get_eq Let_def)

lemma html_fail:
  assumes "queue s = []"
    and "\<not> truthy (cached_at (cacheKey E n ''html'') s)"
    and "\<not> truthy (cached_at (cacheKey E n ''ast'') s)"
    and "load E (source n) opts (dirname E (path n)) = Inl e
         \<or> (\<exists>d. load E (source n) opts (dirname E (path n)) = Inr d
                \<and> convert E d opts (dirname E (path n)) = Inl e)"
    and "nodeToHTML E opts n s = (p, s1)"
  shows "queue (run E s1) = []"
    and "cached_at (cacheKey E n ''html'') (run E s1) = VProm p"
    and "promise_at (run E s1) p = Some (Rejected e)"
proof -
  let ?kh = "cacheKey E n ''html''" and ?ka = "cacheKey E n ''ast''"
  let ?p = "length (heap s)"
  from assms(4)
  have "queue (run E s1) = [] \<and> cached_at ?kh (run E s1) = VProm p
      \<and> promise_at (run E s1) p = Some (Rejected e)"
  proof
    assume l: "load E (source n) opts (dirname E (path n)) = Inl e"
    let ?u = "emit (Load (source n))
        (s\<lparr>heap := heap s @ [Pending []],
            store := snd (lru_get ?ka (snd (lru_get ?kh (store s))))\<rparr>)"
    have s1: "p = ?p" "s1 = cache_set ?kh (VProm ?p) (settle ?p (Inl e) ?u)"
      using assms(2,3,5) l
      by (auto simp: nodeToHTML_def ast_fail cache_get_eq new_promise_def promise_resolve_def
          reject_def Let_def cached_norm emit_def)
    have pu: "promise_at ?u ?p = Some (Pending [])"
      by (simp add: promise_at_def emit_def)
    have "queue s1 = []" "cached_at ?kh s1 = VProm ?p" "promise_at s1 ?p = Some (Rejected e)"
      unfolding s1 using pu assms(1) by (simp_all add: settle_Pending emit_def)
    then show ?thesis by (simp add: run_done s1(1))
  next
    assume "\<exists>d. load E (source n) opts (dirname E (path n)) = Inr d
        \<and> convert E d opts (dirname E (path n)) = Inl e"
    then obtain d where l: "load E (source n) opts (dirname E (path n)) = Inr d"
      and c: "convert E d opts (dirname E (path n)) = Inl e" by blast
    let ?T = "Resume (KHtml ?p n opts) (Inr (VDoc d)) :: ('a, 'b) task"
    let ?u = "emit (Load (source n))
        (s\<lparr>store := snd (lru_get ?ka (snd (lru_get ?kh (store s)))),
            heap := heap s @ [Pending [], Fulfilled (VDoc d)],
            queue := [?T]\<rparr>)"
    have s1: "p = ?p" "s1 = cache_set ?kh (VProm ?p) (cache_set ?ka (VDoc d) ?u)"
      using assms(1,2,3,5) l
      by (auto simp: nodeToHTML_def nodeToAST_def cache_get_eq new_promise_def promise_resolve_def
          await_def subscribe_def enqueue_def promise_at_def cache_set_def emit_def Let_def nth_append
          cached_norm)
    have pa: "promise_at s1 ?p = Some (Pending [])" and q1: "queue s1 = [?T]"
      and c1: "cached_at ?kh s1 = VProm ?p"
      unfolding s1 by (simp_all add: promise_at_def nth_append cache_set_def emit_def cached_at_def
          fst_lru_get_set)
    define t1 where "t1 = settle ?p (Inl e) (emit Convert (s1\<lparr>queue := []\<rparr>))"
    have r1: "run E s1 = run E t1"
      unfolding t1_def using c by (subst run_Cons[OF q1]) (simp add: reject_def)
    have t1: "queue t1 = []" "cached_at ?kh t1 = VProm ?p" "promise_at t1 ?p = Some (Rejected e)"
      unfolding t1_def using pa c1 by (simp_all add: settle_Pending)
    have "run E t1 = t1" using t1(1) by (rule run_done)
    with t1 show ?thesis by (simp add: r1 s1(1))
  qed
  then show "queue (run E s1) = []" and "cached_at ?kh (run E s1) = VProm p"
    and "promise_at (run E s1) p = Some (Rejected e)" by simp_all
qed

lemma headings_fail:
  assumes "queue s = []"
    and "\<not> truthy (cached_at (cacheKey E n ''headings'') s)"
    and "\<not> truthy (cached_at (cacheKey E n ''ast'') s)"
    and "load E (source n) opts (dirname E (path n)) = Inl e"
    and "headings_resolve E opts n da st s = (p, s1)"
  shows "run E s1 = s1"
    and "promise_at s1 p = Some (Rejected e)"
    and "\<not> truthy (cached_at (cacheKey E n ''headings'') s1)"
    and "\<not> truthy (cached_at (cacheKey E n ''ast'') s1)"
proof -
  let ?kh = "cacheKey E n ''headings''" and ?ka = "cacheKey E n ''ast''"
  let ?p = "length (heap s)"
  let ?u = "emit (Load (source n))
      (s\<lparr>heap := heap s @ [Pending []],
          store := snd (lru_get ?ka (snd (lru_get ?kh (store s))))\<rparr>)"
  have s1: "p = ?p" "s1 = settle ?p (Inl e) ?u"
    using assms(2-5)
    by (auto simp: headings_resolve_def ast_fail cache_get_eq new_promise_def reject_def Let_def
        cached_norm emit_def)
  have pu: "promise_at ?u ?p = Some (Pending [])"
    by (simp add: promise_at_def emit_def)
  have "queue s1 = []" unfolding s1 using pu assms(1) by (simp add: settle_Pending emit_def)
  then show "run E s1 = s1" by (rule run_done)
  show "promise_at s1 p = Some (Rejected e)"
    unfolding s1 using pu by (simp add: settle_Pending)
  show "\<not> truthy (cached_at ?kh s1)" "\<not> truthy (cached_at ?ka s1)"
    unfolding s1 using assms(2,3) by (simp_all add: emit_def cached_norm)
qed

text \<open>
  C2, as the code has it. From a state with no queued job and none of the node's
  fingerprints cached, when the parser throws, or the parser returns and the converter
  throws: \<open>_nodeToHTML\<close> has stored its promise before the failure, so after all jobs
  the \<open>html\<close> fingerprint holds the rejected promise, and a further \<open>_nodeToHTML\<close>
  returns that rejected promise, calls nothing and queues nothing. When the parser
  throws, \<open>_nodeToAST\<close> stores nothing under the \<open>ast\<close> fingerprint and a further call
  parses again; the \<open>headings\<close> resolver is rejected and stores nothing under the
  \<open>headings\<close> fingerprint.
\<close>

theorem failures_and_the_cache:
  assumes "queue s = []"
    and "\<not> truthy (cached_at (cacheKey E n ''html'') s)"
    and "\<not> truthy (cached_at (cacheKey E n ''ast'') s)"
    and "\<not> truthy (cached_at (cacheKey E n ''headings'') s)"
    and "load E (source n) opts (dirname E (path n)) = Inl e
         \<or> (\<exists>d. load E (source n) opts (dirname E (path n)) = Inr d
                \<and> convert E d opts (dirname E (path n)) = Inl e)"
  shows "(let (p, s1) = nodeToHTML E opts n s; t = run E s1; (p', s2) = nodeToHTML E opts n t
          in cached_at (cacheKey E n ''html'') t = VProm p
             \<and> promise_at t p = Some (Rejected e)
             \<and> p' = p \<and> events s2 = events t \<and> queue s2 = []
             \<and> promise_at s2 p' = Some (Rejected e))
    \<and> (load E (source n) opts (dirname E (path n)) = Inl e \<longrightarrow>
        (let (r, s1) = nodeToAST E opts n s; (r', s2) = nodeToAST E opts n s1
         in r = Inl e \<and> \<not> truthy (cached_at (cacheKey E n ''ast'') s1) \<and> r' = Inl e
            \<and> events s2 = events s @ [Load (source n), Load (source n)])
        \<and> (let (p, s1) = headings_resolve E opts n da st s; t = run E s1
           in promise_at t p = Some (Rejected e)
              \<and> \<not> truthy (cached_at (cacheKey E n ''headings'') t)
              \<and> \<not> truthy (cached_at (cacheKey E n ''ast'') t)))"
proof -
  let ?kh = "cacheKey E n ''html''"
  obtain p s1 where a: "nodeToHTML E opts n s = (p, s1)" by (cases "nodeToHTML E opts n s")
  note f = html_fail[OF assms(1,2,3,5) a]
  have t: "truthy (cached_at ?kh (run E s1))" by (simp add: f(2))
  have 1: "nodeToHTML E opts n (run E s1)
      = (p, (run E s1)\<lparr>store := snd (lru_get ?kh (store (run E s1)))\<rparr>)"
    by (simp add: nodeToHTML_hit[OF t] f(2) promise_resolve_def)
  have html: "let (p, s1) = nodeToHTML E opts n s; t = run E s1; (p', s2) = nodeToHTML E opts n t
          in cached_at ?kh t = VProm p \<and> promise_at t p = Some (Rejected e)
             \<and> p' = p \<and> events s2 = events t \<and> queue s2 = []
             \<and> promise_at s2 p' = Some (Rejected e)"
    using f by (simp add: a 1)
  have rest: "(let (r, s1) = nodeToAST E opts n s; (r', s2) = nodeToAST E opts n s1
         in r = Inl e \<and> \<not> truthy (cached_at (cacheKey E n ''ast'') s1) \<and> r' = Inl e
            \<and> events s2 = events s @ [Load (source n), Load (source n)])
        \<and> (let (p, s1) = headings_resolve E opts n da st s; t = run E s1
           in promise_at t p = Some (Rejected e)
              \<and> \<not> truthy (cached_at (cacheKey E n ''headings'') t)
              \<and> \<not> truthy (cached_at (cacheKey E n ''ast'') t))"
    if l: "load E (source n) opts (dirname E (path n)) = Inl e"
  proof -
    let ?s1 = "emit (Load (source n)) (s\<lparr>store := snd (lru_get (cacheKey E n ''ast'') (store s))\<rparr>)"
    have m: "\<not> truthy (cached_at (cacheKey E n ''ast'') ?s1)"
      using assms(3) by (simp add: emit_def cached_norm)
    obtain q u1 where b: "headings_resolve E opts n da st s = (q, u1)"
      by (cases "headings_resolve E opts n da st s")
    note h = headings_fail[OF assms(1,4,3) l b]
    show ?thesis
      using m h by (simp add: ast_fail[OF assms(3) l] ast_fail[OF m l] b)
  qed
  show ?thesis using html rest by blast
qed

theorem failures_and_the_cache_witness:
  "queue (init :: (hashed, string) state) = []
    \<and> load ex_ext (source (ex_node ''bad'')) [] (dirname ex_ext (path (ex_node ''bad'')))
        = Inl (Failure ''parse'')
    \<and> (let (p, s1) = nodeToHTML ex_ext [] (ex_node ''bad'') init; t = run ex_ext s1;
            (p', s2) = nodeToHTML ex_ext [] (ex_node ''bad'') t
        in cached_at (cacheKey ex_ext (ex_node ''bad'') ''html'') t = VProm p
           \<and> promise_at t p = Some (Rejected (Failure ''parse''))
           \<and> p' = p \<and> events s2 = events t \<and> queue s2 = []
           \<and> promise_at s2 p' = Some (Rejected (Failure ''parse'')))"
proof -
  let ?n = "ex_node ''bad''"
  let ?s = "init :: (hashed, string) state"
  have h1: "queue ?s = []" by (simp add: init_def)
  have h2: "\<not> truthy (cached_at (cacheKey ex_ext ?n ''html'') ?s)"
    and h3: "\<not> truthy (cached_at (cacheKey ex_ext ?n ''ast'') ?s)"
    and h4: "\<not> truthy (cached_at (cacheKey ex_ext ?n ''headings'') ?s)"
    by (simp_all add: init_def cached_at_def lru_get_def)
  have h5: "load ex_ext (source ?n) [] (dirname ex_ext (path ?n)) = Inl (Failure ''parse'')"
    by (simp add: ex_ext_def ex_node_def)
  note c = failures_and_the_cache[OF h1 h2 h3 h4 disjI1[OF h5], of None True]
  from c have c1: "let (p, s1) = nodeToHTML ex_ext [] ?n ?s; t = run ex_ext s1;
            (p', s2) = nodeToHTML ex_ext [] ?n t
        in cached_at (cacheKey ex_ext ?n ''html'') t = VProm p
           \<and> promise_at t p = Some (Rejected (Failure ''parse''))
           \<and> p' = p \<and> events s2 = events t \<and> queue s2 = []
           \<and> promise_at s2 p' = Some (Rejected (Failure ''parse''))"
    by (rule conjunct1)
  show ?thesis
    by (intro conjI) (rule h1 h5 c1)+
qed

text \<open>
  C2 as stated fails for the \<open>html\<close> fingerprint: after a failed parse it holds the
  rejected promise, and the next request does not parse again.
\<close>

theorem failed_render_stays_cached:
  "cached_at (cacheKey ex_ext (ex_node ''bad'') ''html'')
      (run ex_ext (snd (nodeToHTML ex_ext [] (ex_node ''bad'') init))) = VProm 0
   \<and> promise_at (run ex_ext (snd (nodeToHTML ex_ext [] (ex_node ''bad'') init))) 0
       = Some (Rejected (Failure ''parse''))
   \<and> events (snd (nodeToHTML ex_ext [] (ex_node ''bad'')
        (run ex_ext (snd (nodeToHTML ex_ext [] (ex_node ''bad'') init))))) = [Load ''bad'']"
  by code_simp


section \<open>Stored values are truthy\<close>

text \<open>
  C10, as the code has it. When no stored value is falsy, none is after any of the four
  stages, after any job and after all jobs, so a stored value is never taken for a miss;
  the number \<open>timeToRead\<close> stores is never 0 or NaN, and is an integer at least 1 when
  \<open>speed\<close> is positive. A document without headings caches the empty array, and every
  call that finds it is fulfilled with it, computes nothing and leaves it cached.
\<close>

theorem stored_values_truthy:
  assumes "store_truthy s"
  shows "store_truthy (snd (nodeToAST E opts n s))
    \<and> store_truthy (snd (nodeToHTML E opts n s))
    \<and> store_truthy (snd (headings_resolve E opts n da st s))
    \<and> store_truthy (snd (timeToRead_resolve E opts n speed s))
    \<and> store_truthy (step E s)
    \<and> store_truthy (run E s)
    \<and> (map_of (store s) k = Some v \<longrightarrow> cached_at k s = v \<and> truthy v)
    \<and> num_truthy (reading_time c speed)
    \<and> (0 < speed \<longrightarrow> at_least_one (reading_time c speed))
    \<and> (queue s = [] \<and> \<not> truthy (cached_at (cacheKey E n ''headings'') s)
         \<and> \<not> truthy (cached_at (cacheKey E n ''ast'') s)
         \<and> load E (source n) opts (dirname E (path n)) = Inr d \<and> getRefs E d = [] \<longrightarrow>
        (let (p1, s1) = headings_resolve E opts n da st s; t = run E s1
         in cached_at (cacheKey E n ''headings'') t = VArr []
            \<and> events t = events s @ [Load (source n), HeadingsComputed]))
    \<and> (cached_at (cacheKey E n ''headings'') s = VArr [] \<longrightarrow>
        (let (p, s') = headings_resolve E opts n da st s
         in promise_at s' p = Some (Fulfilled (VArr [])) \<and> events s' = events s
            \<and> cached_at (cacheKey E n ''headings'') s' = VArr []))"
proof -
  obtain p1 s1 where a: "headings_resolve E opts n da st s = (p1, s1)"
    by (cases "headings_resolve E opts n da st s")
  have z: "cached_at (cacheKey E n ''headings'') (run E s1) = VArr []
      \<and> events (run E s1) = events s @ [Load (source n), HeadingsComputed]"
    if "queue s = []" "\<not> truthy (cached_at (cacheKey E n ''headings'') s)"
      "\<not> truthy (cached_at (cacheKey E n ''ast'') s)"
      "load E (source n) opts (dirname E (path n)) = Inr d" "getRefs E d = []"
    using headings_cold(2,4)[OF that(1-4) a] that(5) by simp
  have y: "promise_at s1 p1 = Some (Fulfilled (VArr [])) \<and> events s1 = events s
      \<and> cached_at (cacheKey E n ''headings'') s1 = VArr []"
    if "cached_at (cacheKey E n ''headings'') s = VArr []"
    using headings_hit_array(1,2,3)[OF that a] by simp
  have x: "store_truthy s1"
    using store_truthy_headings[OF assms, of E opts n da st] by (simp add: a)
  show ?thesis
    using assms x z y stored_is_hit[OF assms, of k v] at_least_one_pos[of speed c]
    by (simp add: a store_truthy_run)
qed

theorem stored_values_truthy_witness:
  "store_truthy (init :: (hashed, string) state)
    \<and> store_truthy (run ex_ext (snd (timeToRead_resolve ex_ext [] (ex_node ''one'') 230
          (init :: (hashed, string) state))))
    \<and> at_least_one (reading_time 1 230)"
proof -
  have h: "store_truthy (init :: (hashed, string) state)"
    by (simp add: store_truthy_def init_def)
  have p: "(0::int) < 230" by simp
  from stored_values_truthy[OF h, where E = ex_ext and opts = "[]" and n = "ex_node ''one''"
      and speed = 230 and c = 1]
  have a: "store_truthy (snd (timeToRead_resolve ex_ext [] (ex_node ''one'') 230 (init :: (hashed, string) state)))"
    and b: "at_least_one (reading_time 1 230)"
    using p by simp_all
  from stored_values_truthy[OF a, of ex_ext]
  have "store_truthy (run ex_ext (snd (timeToRead_resolve ex_ext [] (ex_node ''one'') 230
          (init :: (hashed, string) state))))"
    by simp
  with h b show ?thesis by simp
qed


text \<open>
  C10 as stated fails in its list of stored values: for a negative \<open>speed\<close> the stored
  number is a negative integer.
\<close>

theorem stored_number_negative:
  "cached_at (cacheKey ex_ext (ex_node ''a b c d e f g h i j'') ''timeToRead'')
      (run ex_ext (snd (timeToRead_resolve ex_ext [] (ex_node ''a b c d e f g h i j'') (- 2) init)))
     = VNum (Num (- 5))
   \<and> \<not> at_least_one (Num (- 5))"
  by code_simp


section \<open>Isolation of the derivation keys\<close>

text \<open>
  The derivation key is a field of the object that is hashed, so two keys of one node
  get different fingerprints exactly when the hash separates the two objects. That is a
  property of the \<open>hash-sum\<close> package: it holds for a hash without collisions, and it
  fails for some pair of keys of every node as soon as the hash has finitely many values.
\<close>

lemma injective_hash_separates:
  assumes "inj (hash E)" and "k \<noteq> k'"
  shows "cacheKey E n k \<noteq> cacheKey E n k'"
proof
  assume "cacheKey E n k = cacheKey E n k'"
  with assms(1) have "hashed_key \<lparr>hashed_content = content n, hashed_path = origin n,
        hashed_timestamp = timestamp n, hashed_key = k\<rparr>
      = hashed_key \<lparr>hashed_content = content n, hashed_path = origin n,
        hashed_timestamp = timestamp n, hashed_key = k'\<rparr>"
    unfolding cacheKey_def by (auto dest: injD)
  with assms(2) show False by simp
qed

lemma cacheKey_collision_finite:
  assumes "finite (range (hash E))"
  shows "\<exists>k k'. k \<noteq> k' \<and> cacheKey E n k = cacheKey E n k'"
proof -
  have "range (\<lambda>k. cacheKey E n k) \<subseteq> range (hash E)"
    by (auto simp: cacheKey_def)
  with assms have "finite (range (\<lambda>k. cacheKey E n k))"
    by (rule finite_subset[rotated])
  moreover have "infinite (UNIV :: string set)"
    by (rule infinite_UNIV_listI)
  ultimately have "\<not> inj (\<lambda>k. cacheKey E n k)"
    using finite_imageD by blast
  then show ?thesis by (auto simp: inj_on_def)
qed

lemma hash_sum_values:
  "cacheKey hs_ext (node_at 1) ''ast'' = ''4ed2bc83''"
  "cacheKey hs_ext (node_at 1) ''html'' = ''394a56a5''"
  "cacheKey hs_ext (node_at 1) ''headings'' = ''4d80ef70''"
  "cacheKey hs_ext (node_at 1) ''timeToRead'' = ''2fd476c4''"
  by code_simp+

text \<open>
  C7, as the code has it. The derivation key is one of the four fields of the object
  that \<open>cacheKey\<close> hashes: two different keys of one node give two different objects, and
  the two fingerprints differ whenever the hash separates the objects (always, for a
  hash without collisions). With \<open>hash-sum\<close> the four fingerprints \<open>ast\<close>, \<open>html\<close>,
  \<open>headings\<close> and \<open>timeToRead\<close> of the node with content \<open>c\<close>, origin \<open>/a.adoc\<close> and
  timestamp \<open>1\<close> are pairwise distinct.
\<close>

theorem cacheKey_isolation:
  "(k \<noteq> k' \<longrightarrow>
      \<lparr>hashed_content = content n, hashed_path = origin n, hashed_timestamp = timestamp n,
        hashed_key = k\<rparr>
      \<noteq> \<lparr>hashed_content = content n, hashed_path = origin n, hashed_timestamp = timestamp n,
          hashed_key = k'\<rparr>
      \<and> (inj (hash E) \<longrightarrow> cacheKey E n k \<noteq> cacheKey E n k'))
   \<and> distinct [cacheKey hs_ext (node_at 1) ''ast'', cacheKey hs_ext (node_at 1) ''html'',
       cacheKey hs_ext (node_at 1) ''headings'', cacheKey hs_ext (node_at 1) ''timeToRead'']"
proof (intro conjI impI)
  assume "k \<noteq> k'"
  then show "\<lparr>hashed_content = content n, hashed_path = origin n, hashed_timestamp = timestamp n,
        hashed_key = k\<rparr>
      \<noteq> \<lparr>hashed_content = content n, hashed_path = origin n, hashed_timestamp = timestamp n,
          hashed_key = k'\<rparr>"
    by simp
next
  assume "k \<noteq> k'" and "inj (hash E)"
  then show "cacheKey E n k \<noteq> cacheKey E n k'"
    by (simp add: injective_hash_separates)
next
  show "distinct [cacheKey hs_ext (node_at 1) ''ast'', cacheKey hs_ext (node_at 1) ''html'',
       cacheKey hs_ext (node_at 1) ''headings'', cacheKey hs_ext (node_at 1) ''timeToRead'']"
    by (simp add: hash_sum_values)
qed

theorem cacheKey_isolation_witness:
  "''ast'' \<noteq> ''html'' \<and> inj (hash ex_ext)
    \<and> cacheKey ex_ext (ex_node ''x'') ''ast'' \<noteq> cacheKey ex_ext (ex_node ''x'') ''html''
    \<and> cacheKey hs_ext (node_at 1) ''ast'' \<noteq> cacheKey hs_ext (node_at 1) ''html''"
proof -
  have k: "''ast'' \<noteq> ''html''" by simp
  have i: "inj (hash ex_ext)" by (simp add: ex_ext_def inj_def)
  note c = cacheKey_isolation[where k = "''ast''" and k' = "''html''" and E = ex_ext
      and n = "ex_node ''x''"]
  note c1 = c[THEN conjunct1, rule_format, OF k, THEN conjunct2, rule_format, OF i]
  have c2: "cacheKey hs_ext (node_at 1) ''ast'' \<noteq> cacheKey hs_ext (node_at 1) ''html''"
    using c[THEN conjunct2] by simp
  show ?thesis
    by (intro conjI) (rule k i c1 c2)+
qed

text \<open>
  C7 as stated fails: for the node with content \<open>c\<close>, origin \<open>/a.adoc\<close> and timestamp
  \<open>1700853486596\<close> the fingerprints of \<open>headings\<close> and \<open>ast\<close> are both \<open>1fd53062\<close>, and after
  \<open>_nodeToAST\<close> has stored the document, the lookup of the \<open>headings\<close> fingerprint finds
  that document. At timestamp \<open>1702370904365\<close> the fingerprints of \<open>timeToRead\<close> and
  \<open>html\<close> are both \<open>6900d5a6\<close>.
\<close>

theorem derivation_keys_collide:
  "cacheKey hs_ext (node_at 1700853486596) ''headings'' = ''1fd53062''
    \<and> cacheKey hs_ext (node_at 1700853486596) ''ast'' = ''1fd53062''
    \<and> cached_at (cacheKey hs_ext (node_at 1700853486596) ''headings'')
          (snd (nodeToAST hs_ext [] (node_at 1700853486596) init)) = VDoc ''x''
    \<and> cacheKey hs_ext (node_at 1702370904365) ''timeToRead'' = ''6900d5a6''
    \<and> cacheKey hs_ext (node_at 1702370904365) ''html'' = ''6900d5a6''"
  by code_simp

end
